theory Spec2Isabelle
  imports Main "HOL-Library.Sublist"
begin

section \<open>Decoded JSON, errors and the crash record\<close>

text \<open>
  The symptom classes of \<^verbatim>\<open>FTB/Signatures/Symptom.py\<close> are built from objects
  decoded from JSON. A decoded object is a Python dict; it is kept here as an
  association list read with \<^const>\<open>map_of\<close>. Numbers are the integers of the
  signature format.
\<close>

datatype json =
    JNull
  | JBool bool
  | JNumber int
  | JString string
  | JArray "json list"
  | JObject "(string \<times> json) list"

type_synonym jobject = "(string \<times> json) list"

text \<open>
  Every \<^verbatim>\<open>raise\<close> of \<^verbatim>\<open>Symptom.py\<close> is a \<^verbatim>\<open>RuntimeError\<close> with a message.
  The remaining constructors are the error kinds that the specification gives
  to the helper modules \<^verbatim>\<open>JSONHelper\<close> and \<^verbatim>\<open>Matchers\<close>.
\<close>

datatype error =
    RuntimeError string
  | MissingField string
  | BadType string
  | BadPattern string
  | BadNumberSpec string

text \<open>
  Modelled from the spec: the class \<^verbatim>\<open>CrashInfo\<close> (module
  \<^verbatim>\<open>FTB.Signatures.CrashInfo\<close>) is not among the sources; its fields are those of
  the data model, and the symptoms only read them.
\<close>

record CrashInfo =
  rawStdout :: "string list"
  rawStderr :: "string list"
  backtrace :: "string list"
  crashAddress :: "int option"
  crashInstruction :: "string option"
  testcase :: "string option"

section \<open>The helper modules\<close>

subsection \<open>JSONHelper\<close>

text \<open>
  Modelled from the spec: the module \<^verbatim>\<open>FTB.Signatures.JSONHelper\<close> is not among
  the sources. Each accessor returns the value under the key when it has the
  expected JSON type, fails with the bad-type error when the key is present
  with another type, fails with the missing-key error when the key is absent
  and required, and returns nothing when it is absent and optional.
\<close>

definition getStringChecked :: "jobject \<Rightarrow> string \<Rightarrow> bool \<Rightarrow> error + string option" where
  "getStringChecked obj k required =
     (case map_of obj k of
        None \<Rightarrow> if required then Inl (MissingField k) else Inr None
      | Some (JString s) \<Rightarrow> Inr (Some s)
      | Some _ \<Rightarrow> Inl (BadType k))"

definition getNumberChecked :: "jobject \<Rightarrow> string \<Rightarrow> bool \<Rightarrow> error + int option" where
  "getNumberChecked obj k required =
     (case map_of obj k of
        None \<Rightarrow> if required then Inl (MissingField k) else Inr None
      | Some (JNumber n) \<Rightarrow> Inr (Some n)
      | Some _ \<Rightarrow> Inl (BadType k))"

definition getArrayChecked :: "jobject \<Rightarrow> string \<Rightarrow> bool \<Rightarrow> error + json list option" where
  "getArrayChecked obj k required =
     (case map_of obj k of
        None \<Rightarrow> if required then Inl (MissingField k) else Inr None
      | Some (JArray xs) \<Rightarrow> Inr (Some xs)
      | Some _ \<Rightarrow> Inl (BadType k))"

definition getNumberOrStringChecked :: "jobject \<Rightarrow> string \<Rightarrow> bool \<Rightarrow> error + json option" where
  "getNumberOrStringChecked obj k required =
     (case map_of obj k of
        None \<Rightarrow> if required then Inl (MissingField k) else Inr None
      | Some (JNumber n) \<Rightarrow> Inr (Some (JNumber n))
      | Some (JString s) \<Rightarrow> Inr (Some (JString s))
      | Some _ \<Rightarrow> Inl (BadType k))"

definition getObjectOrStringChecked :: "jobject \<Rightarrow> string \<Rightarrow> bool \<Rightarrow> error + json option" where
  "getObjectOrStringChecked obj k required =
     (case map_of obj k of
        None \<Rightarrow> if required then Inl (MissingField k) else Inr None
      | Some (JObject kv) \<Rightarrow> Inr (Some (JObject kv))
      | Some (JString s) \<Rightarrow> Inr (Some (JString s))
      | Some _ \<Rightarrow> Inl (BadType k))"

subsection \<open>Strings\<close>

text \<open>
  Python's \<^verbatim>\<open>a in b\<close> on strings (substring test) and \<^verbatim>\<open>str.lower\<close> on the
  ASCII letters.
\<close>

fun str_contains :: "string \<Rightarrow> string \<Rightarrow> bool" where
  "str_contains pat [] = (pat = [])"
| "str_contains pat (c # cs) = (prefix pat (c # cs) \<or> str_contains pat cs)"

definition lower_char :: "char \<Rightarrow> char" where
  "lower_char c =
     (case map_of (zip ''ABCDEFGHIJKLMNOPQRSTUVWXYZ'' ''abcdefghijklmnopqrstuvwxyz'') c of
        None \<Rightarrow> c
      | Some l \<Rightarrow> l)"

definition lower :: "string \<Rightarrow> string" where
  "lower s = map lower_char s"

subsection \<open>Matchers\<close>

text \<open>
  Modelled from the spec: the class \<^verbatim>\<open>NumberMatch\<close> (module
  \<^verbatim>\<open>FTB.Signatures.Matchers\<close>) is not among the sources. It is a predicate on
  integers: an exact value, an open-ended range or a closed range.
\<close>

datatype NumberMatch = Exact int | AtLeast int | AtMost int | Between int int

text \<open>
  What the matchers take from outside the sources: the regular-expression
  library behind a PCRE matcher (whether a pattern compiles, and whether a
  pattern, with or without the ignore-case option, is found in a subject), and
  the reader of the number grammar that \<^verbatim>\<open>NumberMatch\<close> applies to a string.
\<close>

record re_lib =
  re_compiles :: "string \<Rightarrow> bool"
  re_search :: "string \<Rightarrow> bool \<Rightarrow> string \<Rightarrow> bool"
  number_spec :: "string \<Rightarrow> NumberMatch option"

definition NumberMatch_init :: "re_lib \<Rightarrow> json \<Rightarrow> error + NumberMatch" where
  "NumberMatch_init R obj =
     (case obj of
        JNumber n \<Rightarrow> Inr (Exact n)
      | JString s \<Rightarrow>
          (case number_spec R s of None \<Rightarrow> Inl (BadNumberSpec s) | Some m \<Rightarrow> Inr m)
      | _ \<Rightarrow> Inl (BadType ''NumberMatch''))"

text \<open>
  Modelled from the spec: the class \<^verbatim>\<open>StringMatch\<close> (module
  \<^verbatim>\<open>FTB.Signatures.Matchers\<close>) is not among the sources. A matcher carries its
  pattern and the two flags; it is built from a bare string (a literal with
  default flags) or from a mapping with the required key \<^verbatim>\<open>value\<close> and the
  optional keys \<^verbatim>\<open>matchType\<close> and \<^verbatim>\<open>flags\<close>. Its textual forms (\<^verbatim>\<open>str\<close> and
  \<^verbatim>\<open>repr\<close>) are the bare pattern. The spec names no error for a match type
  or a flag outside its lists, nor for a value that is neither a string nor a
  mapping; the bad-type error is used for them.
\<close>

record StringMatch =
  pattern :: string
  isPCRE :: bool
  caseInsensitive :: bool

definition StringMatch_of_string :: "string \<Rightarrow> StringMatch" where
  "StringMatch_of_string s = \<lparr>pattern = s, isPCRE = False, caseInsensitive = False\<rparr>"

fun flags_ok :: "json list \<Rightarrow> bool" where
  "flags_ok [] = True"
| "flags_ok (JString f # fs) = (f = ''caseInsensitive'' \<and> flags_ok fs)"
| "flags_ok (_ # fs) = False"

definition StringMatch_of_mapping :: "re_lib \<Rightarrow> jobject \<Rightarrow> error + StringMatch" where
  "StringMatch_of_mapping R kv =
     (case getStringChecked kv ''value'' True of
        Inl e \<Rightarrow> Inl e
      | Inr None \<Rightarrow> Inl (MissingField ''value'')
      | Inr (Some v) \<Rightarrow>
     (case getStringChecked kv ''matchType'' False of
        Inl e \<Rightarrow> Inl e
      | Inr mt \<Rightarrow>
     (case getArrayChecked kv ''flags'' False of
        Inl e \<Rightarrow> Inl e
      | Inr fl \<Rightarrow>
          if mt \<noteq> None \<and> mt \<noteq> Some ''contains'' \<and> mt \<noteq> Some ''pcre''
            then Inl (BadType ''matchType'')
          else if \<not> flags_ok (case fl of None \<Rightarrow> [] | Some fs \<Rightarrow> fs)
            then Inl (BadType ''flags'')
          else if mt = Some ''pcre'' \<and> \<not> re_compiles R v
            then Inl (BadPattern v)
          else Inr \<lparr>pattern = v, isPCRE = (mt = Some ''pcre''),
                    caseInsensitive = (fl \<noteq> None \<and> fl \<noteq> Some [])\<rparr>)))"

definition StringMatch_init :: "re_lib \<Rightarrow> json \<Rightarrow> error + StringMatch" where
  "StringMatch_init R obj =
     (case obj of
        JString s \<Rightarrow> Inr (StringMatch_of_string s)
      | JObject kv \<Rightarrow> StringMatch_of_mapping R kv
      | _ \<Rightarrow> Inl (BadType ''StringMatch''))"

definition StringMatch_matches :: "re_lib \<Rightarrow> StringMatch \<Rightarrow> string \<Rightarrow> bool" where
  "StringMatch_matches R m s =
     (if isPCRE m then re_search R (pattern m) (caseInsensitive m) s
      else if caseInsensitive m then str_contains (lower (pattern m)) (lower s)
      else str_contains (pattern m) s)"

definition StringMatch_str :: "StringMatch \<Rightarrow> string" where
  "StringMatch_str m = pattern m"

definition StringMatch_repr :: "StringMatch \<Rightarrow> string" where
  "StringMatch_repr m = pattern m"

section \<open>The stack-frames recognizer\<close>

text \<open>
  The \<^verbatim>\<open>while\<close> loop at the head of \<^verbatim>\<open>StackFramesSymptom._match\<close>: it
  consumes a frame and a matcher as long as both lists are non-empty and the
  first matcher is no wildcard. \<open>None\<close> is the \<^verbatim>\<open>return False\<close> inside the
  loop; \<open>Some\<close> carries the two views at the loop's exit.
\<close>

fun match_loop ::
  "re_lib \<Rightarrow> string list \<Rightarrow> StringMatch list \<Rightarrow> (string list \<times> StringMatch list) option" where
  "match_loop R (s # partialStack) (p # partialFunctionNames) =
     (if StringMatch_str p \<noteq> ''?'' \<and> StringMatch_str p \<noteq> ''???'' then
        (if \<not> StringMatch_matches R p s then None
         else match_loop R partialStack partialFunctionNames)
      else Some (s # partialStack, p # partialFunctionNames))"
| "match_loop R partialStack partialFunctionNames = Some (partialStack, partialFunctionNames)"

lemma match_loop_length:
  "match_loop R st pt = Some (st', pt') \<Longrightarrow> length st' \<le> length st \<and> length pt' \<le> length pt"
  by (induction R st pt rule: match_loop.induct) (auto split: if_splits)

text \<open>
  \<^verbatim>\<open>StackFramesSymptom._match\<close> (a leading underscore is no Isabelle name).
  After the loop the function accepts an exhausted pattern; on a wildcard it
  first tries the rest of the pattern on the current stack, and only then
  consumes a frame; a non-wildcard here means that the stack is exhausted.
  The source has no \<^verbatim>\<open>return\<close> after its last \<^verbatim>\<open>elif\<close>: the final \<open>False\<close>
  below stands for that \<^verbatim>\<open>None\<close>, and \<open>match_loop_exit\<close> shows that it is
  never reached.
\<close>

function priv_match :: "re_lib \<Rightarrow> string list \<Rightarrow> StringMatch list \<Rightarrow> bool" where
  "priv_match R partialStack partialFunctionNames =
     (case match_loop R partialStack partialFunctionNames of
        None \<Rightarrow> False
      | Some (stack, pat) \<Rightarrow>
          if pat = [] then True
          else if StringMatch_str (hd pat) = ''?'' \<or> StringMatch_str (hd pat) = ''???'' then
            (if priv_match R stack (tl pat) then True
             else if stack = [] then False
             else if StringMatch_str (hd pat) = ''?'' then priv_match R (tl stack) (tl pat)
             else priv_match R (tl stack) pat)
          else if stack = [] then False
          else False)"
  by pat_completeness auto
termination
proof (relation "measure (\<lambda>(R, st, pt). length st + length pt)", goal_cases)
  case 1
  show ?case by simp
next
  case (2 R st pt x stack pat)
  then show ?case
    using match_loop_length [of R st pt stack pat] by (cases pat) auto
next
  case (3 R st pt x stack pat)
  then show ?case
    using match_loop_length [of R st pt stack pat] by (cases pat; cases stack) auto
next
  case (4 R st pt x stack pat)
  then show ?case
    using match_loop_length [of R st pt stack pat] by (cases stack) auto
qed

declare priv_match.simps [simp del]

section \<open>The symptom classes\<close>

text \<open>
  The base class \<^verbatim>\<open>Symptom\<close> stores the object it was built from; each
  subclass extends it with its matchers. (\<^verbatim>\<open>jsonsrc\<close>, the same object printed
  by \<^verbatim>\<open>json.dumps\<close>, is only read by \<^verbatim>\<open>__str__\<close> and is left out.) The field
  \<^verbatim>\<open>output\<close> is named \<open>outputMatch\<close> (the word is reserved in Isabelle), and that
  of \<^verbatim>\<open>TestcaseSymptom\<close> is named \<open>testcaseOutput\<close>, since a field name belongs to
  one record.
\<close>

record Symptom_base =
  jsonobj :: jobject

record OutputSymptom = Symptom_base +
  outputMatch :: StringMatch
  src :: "string option"

record StackFrameSymptom = Symptom_base +
  functionName :: StringMatch
  frameNumber :: NumberMatch

record StackSizeSymptom = Symptom_base +
  stackSize :: NumberMatch

record CrashAddressSymptom = Symptom_base +
  address :: NumberMatch

record InstructionSymptom = Symptom_base +
  registerNames :: "json list option"
  instructionName :: "StringMatch option"

record TestcaseSymptom = Symptom_base +
  testcaseOutput :: StringMatch

record StackFramesSymptom = Symptom_base +
  functionNames :: "StringMatch list"

datatype Symptom =
    Output OutputSymptom
  | StackFrame StackFrameSymptom
  | StackSize StackSizeSymptom
  | CrashAddress CrashAddressSymptom
  | Instruction InstructionSymptom
  | Testcase TestcaseSymptom
  | StackFrames StackFramesSymptom

text \<open>
  An accessor hands back Python's \<^verbatim>\<open>None\<close> for an absent optional key; passed
  on to a matcher's constructor it is a value of no accepted type.
\<close>

definition py_value :: "json option \<Rightarrow> json" where
  "py_value v = (case v of None \<Rightarrow> JNull | Some j \<Rightarrow> j)"

subsection \<open>Constructors\<close>

text \<open>
  \<^verbatim>\<open>OutputSymptom.__init__\<close>: the matcher of \<^verbatim>\<open>value\<close> first, then \<^verbatim>\<open>src\<close>, which
  is lowercased and must then be \<^verbatim>\<open>stderr\<close> or \<^verbatim>\<open>stdout\<close>.
\<close>

definition OutputSymptom_init :: "re_lib \<Rightarrow> jobject \<Rightarrow> error + OutputSymptom" where
  "OutputSymptom_init R obj =
     (case getObjectOrStringChecked obj ''value'' True of
        Inl e \<Rightarrow> Inl e
      | Inr v \<Rightarrow>
     (case StringMatch_init R (py_value v) of
        Inl e \<Rightarrow> Inl e
      | Inr m \<Rightarrow>
     (case getStringChecked obj ''src'' False of
        Inl e \<Rightarrow> Inl e
      | Inr None \<Rightarrow> Inr \<lparr>jsonobj = obj, outputMatch = m, src = None\<rparr>
      | Inr (Some s) \<Rightarrow>
          if lower s \<noteq> ''stderr'' \<and> lower s \<noteq> ''stdout''
          then Inl (RuntimeError (''Invalid source specified: '' @ lower s))
          else Inr \<lparr>jsonobj = obj, outputMatch = m, src = Some (lower s)\<rparr>)))"

text \<open>
  \<^verbatim>\<open>StackFrameSymptom.__init__\<close>: the function name is read with
  \<^verbatim>\<open>getNumberOrStringChecked\<close>; the frame number defaults to the exact value 0.
\<close>

definition StackFrameSymptom_init :: "re_lib \<Rightarrow> jobject \<Rightarrow> error + StackFrameSymptom" where
  "StackFrameSymptom_init R obj =
     (case getNumberOrStringChecked obj ''functionName'' True of
        Inl e \<Rightarrow> Inl e
      | Inr v \<Rightarrow>
     (case StringMatch_init R (py_value v) of
        Inl e \<Rightarrow> Inl e
      | Inr m \<Rightarrow>
     (case getNumberOrStringChecked obj ''frameNumber'' False of
        Inl e \<Rightarrow> Inl e
      | Inr (Some fnum) \<Rightarrow>
          (case NumberMatch_init R fnum of
             Inl e \<Rightarrow> Inl e
           | Inr n \<Rightarrow> Inr \<lparr>jsonobj = obj, functionName = m, frameNumber = n\<rparr>)
      | Inr None \<Rightarrow>
          (case NumberMatch_init R (JNumber 0) of
             Inl e \<Rightarrow> Inl e
           | Inr n \<Rightarrow> Inr \<lparr>jsonobj = obj, functionName = m, frameNumber = n\<rparr>))))"

definition StackSizeSymptom_init :: "re_lib \<Rightarrow> jobject \<Rightarrow> error + StackSizeSymptom" where
  "StackSizeSymptom_init R obj =
     (case getNumberOrStringChecked obj ''size'' True of
        Inl e \<Rightarrow> Inl e
      | Inr v \<Rightarrow>
     (case NumberMatch_init R (py_value v) of
        Inl e \<Rightarrow> Inl e
      | Inr n \<Rightarrow> Inr \<lparr>jsonobj = obj, stackSize = n\<rparr>))"

definition CrashAddressSymptom_init :: "re_lib \<Rightarrow> jobject \<Rightarrow> error + CrashAddressSymptom" where
  "CrashAddressSymptom_init R obj =
     (case getNumberOrStringChecked obj ''address'' True of
        Inl e \<Rightarrow> Inl e
      | Inr v \<Rightarrow>
     (case NumberMatch_init R (py_value v) of
        Inl e \<Rightarrow> Inl e
      | Inr n \<Rightarrow> Inr \<lparr>jsonobj = obj, address = n\<rparr>))"

definition InstructionSymptom_init :: "re_lib \<Rightarrow> jobject \<Rightarrow> error + InstructionSymptom" where
  "InstructionSymptom_init R obj =
     (case getArrayChecked obj ''registerNames'' False of
        Inl e \<Rightarrow> Inl e
      | Inr regs \<Rightarrow>
     (case getObjectOrStringChecked obj ''instructionName'' False of
        Inl e \<Rightarrow> Inl e
      | Inr (Some iname) \<Rightarrow>
          (case StringMatch_init R iname of
             Inl e \<Rightarrow> Inl e
           | Inr m \<Rightarrow> Inr \<lparr>jsonobj = obj, registerNames = regs, instructionName = Some m\<rparr>)
      | Inr None \<Rightarrow>
          if (case regs of None \<Rightarrow> True | Some rs \<Rightarrow> length rs = 0)
          then Inl (RuntimeError ''Must provide at least instruction name or register names'')
          else Inr \<lparr>jsonobj = obj, registerNames = regs, instructionName = None\<rparr>))"

definition TestcaseSymptom_init :: "re_lib \<Rightarrow> jobject \<Rightarrow> error + TestcaseSymptom" where
  "TestcaseSymptom_init R obj =
     (case getObjectOrStringChecked obj ''value'' True of
        Inl e \<Rightarrow> Inl e
      | Inr v \<Rightarrow>
     (case StringMatch_init R (py_value v) of
        Inl e \<Rightarrow> Inl e
      | Inr m \<Rightarrow> Inr \<lparr>jsonobj = obj, testcaseOutput = m\<rparr>))"

text \<open>
  \<^verbatim>\<open>StackFramesSymptom.__init__\<close>: the loop appends one matcher for each entry
  of the array to \<^verbatim>\<open>self.functionNames\<close>, which starts empty; the first entry
  that no matcher can be built from ends the construction with its error.
\<close>

fun append_matchers :: "re_lib \<Rightarrow> json list \<Rightarrow> StringMatch list \<Rightarrow> error + StringMatch list" where
  "append_matchers R [] fns = Inr fns"
| "append_matchers R (fn # rawFunctionNames) fns =
     (case StringMatch_init R fn of
        Inl e \<Rightarrow> Inl e
      | Inr m \<Rightarrow> append_matchers R rawFunctionNames (fns @ [m]))"

definition StackFramesSymptom_init :: "re_lib \<Rightarrow> jobject \<Rightarrow> error + StackFramesSymptom" where
  "StackFramesSymptom_init R obj =
     (case getArrayChecked obj ''functionNames'' True of
        Inl e \<Rightarrow> Inl e
      | Inr None \<Rightarrow> Inl (BadType ''functionNames'')
      | Inr (Some rawFunctionNames) \<Rightarrow>
          (case append_matchers R rawFunctionNames [] of
             Inl e \<Rightarrow> Inl e
           | Inr fns \<Rightarrow> Inr \<lparr>jsonobj = obj, functionNames = fns\<rparr>))"

subsection \<open>The factory\<close>

text \<open>
  \<^verbatim>\<open>Symptom.fromJSONObject\<close>. Its last branch formats the message with
  \<^verbatim>\<open>type\<close>, which in this scope is Python's built-in class of that name and
  not the local \<^verbatim>\<open>stype\<close>: the text put into the message is the printed form
  of that class.
\<close>

definition builtin_type_str :: string where
  "builtin_type_str = ''<type 'type'>''"

definition fromJSONObject :: "re_lib \<Rightarrow> jobject \<Rightarrow> error + Symptom" where
  "fromJSONObject R obj =
     (case map_of obj ''type'' of
        None \<Rightarrow> Inl (RuntimeError ''Missing symptom type in object'')
      | Some stype \<Rightarrow>
          if stype = JString ''output'' then map_sum id Output (OutputSymptom_init R obj)
          else if stype = JString ''stackFrame'' then map_sum id StackFrame (StackFrameSymptom_init R obj)
          else if stype = JString ''stackSize'' then map_sum id StackSize (StackSizeSymptom_init R obj)
          else if stype = JString ''crashAddress'' then map_sum id CrashAddress (CrashAddressSymptom_init R obj)
          else if stype = JString ''instruction'' then map_sum id Instruction (InstructionSymptom_init R obj)
          else if stype = JString ''testcase'' then map_sum id Testcase (TestcaseSymptom_init R obj)
          else if stype = JString ''stackFrames'' then map_sum id StackFrames (StackFramesSymptom_init R obj)
          else Inl (RuntimeError (''Unknown symptom type: '' @ builtin_type_str)))"

subsection \<open>Matching\<close>

text \<open>
  \<^verbatim>\<open>OutputSymptom.matches\<close>: the lines to check are both captures (standard
  output first) when no source is set, else the capture named by the source;
  the \<^verbatim>\<open>for\<close> loop returns at the first line that the matcher accepts.
\<close>

fun any_line :: "re_lib \<Rightarrow> StringMatch \<Rightarrow> string list \<Rightarrow> bool" where
  "any_line R m [] = False"
| "any_line R m (line # checkedOutput) =
     (if StringMatch_matches R m line then True else any_line R m checkedOutput)"

definition OutputSymptom_matches :: "re_lib \<Rightarrow> OutputSymptom \<Rightarrow> CrashInfo \<Rightarrow> bool" where
  "OutputSymptom_matches R self crashInfo =
     (let checkedOutput =
        (if src self = None then [] @ rawStdout crashInfo @ rawStderr crashInfo
         else if src self = Some ''stdout'' then rawStdout crashInfo
         else rawStderr crashInfo)
      in any_line R (outputMatch self) checkedOutput)"

definition StackFramesSymptom_matches :: "re_lib \<Rightarrow> StackFramesSymptom \<Rightarrow> CrashInfo \<Rightarrow> bool" where
  "StackFramesSymptom_matches R self crashInfo =
     priv_match R (backtrace crashInfo) (functionNames self)"

section \<open>The diff search\<close>

text \<open>
  Python's \<^verbatim>\<open>list.insert\<close> and \<^verbatim>\<open>list.pop\<close> at a non-negative index. The
  search below pops the index it has just inserted at, which is in range.
\<close>

definition list_insert :: "nat \<Rightarrow> 'a \<Rightarrow> 'a list \<Rightarrow> 'a list" where
  "list_insert idx x xs = take idx xs @ x # drop idx xs"

definition list_pop :: "nat \<Rightarrow> 'a list \<Rightarrow> 'a list" where
  "list_pop idx xs = take idx xs @ drop (Suc idx) xs"

definition singleWildcardMatch :: StringMatch where
  "singleWildcardMatch = StringMatch_of_string ''?''"

text \<open>
  The pair \<^verbatim>\<open>(bestDepth, bestGuess)\<close> is set and read as a whole: \<open>None\<close> is
  \<^verbatim>\<open>(None, None)\<close>. \<open>update_best\<close> is the assignment guarded by
  \<^verbatim>\<open>newBestDepth != None and (bestDepth == None or newBestDepth < bestDepth)\<close>.
\<close>

type_synonym guess = "(nat \<times> StringMatch list) option"

definition update_best :: "guess \<Rightarrow> guess \<Rightarrow> guess" where
  "update_best best new =
     (case new of
        None \<Rightarrow> best
      | Some (newBestDepth, newBestGuess) \<Rightarrow>
          (case best of
             None \<Rightarrow> new
           | Some (bestDepth, bestGuess) \<Rightarrow> if newBestDepth < bestDepth then new else best))"

text \<open>
  \<^verbatim>\<open>StackFramesSymptom._diff\<close> and its \<^verbatim>\<open>for\<close> loop. \<open>priv_diff\<close> copies the
  guess and enters the loop with the bound \<open>n\<close> that \<^verbatim>\<open>range\<close> computes once;
  \<open>diff_loop\<close> is the loop from index \<open>idx\<close> on, with the working list and the
  best result so far as its state. One iteration inserts the single-frame
  wildcard at \<open>idx\<close>, tests, searches one level deeper, pops the wildcard
  again; unless the entry at \<open>idx\<close> is a wildcard it then overwrites that
  entry, tests, searches deeper and restores the entry.
\<close>

function priv_diff ::
    "re_lib \<Rightarrow> string list \<Rightarrow> StringMatch list \<Rightarrow> nat \<Rightarrow> nat \<Rightarrow> nat \<Rightarrow> guess"
  and diff_loop ::
    "re_lib \<Rightarrow> string list \<Rightarrow> nat \<Rightarrow> nat \<Rightarrow> nat \<Rightarrow> nat \<Rightarrow> StringMatch list \<Rightarrow> guess \<Rightarrow> guess"
where
  "priv_diff R stack signatureGuess startIdx depth maxDepth =
     diff_loop R stack depth maxDepth (length ([] @ signatureGuess)) startIdx
       ([] @ signatureGuess) None"
| "diff_loop R stack depth maxDepth n idx newSignatureGuess best =
     (if \<not> idx < n then best
      else
        let g1 = list_insert idx singleWildcardMatch newSignatureGuess in
        if priv_match R stack g1 then Some (depth, g1)
        else
          let best1 = (if depth < maxDepth
                       then update_best best (priv_diff R stack g1 idx (depth + 1) maxDepth)
                       else best);
              g2 = list_pop idx g1
          in
          if StringMatch_str (g2 ! idx) = ''?'' \<or> StringMatch_str (g2 ! idx) = ''???''
          then diff_loop R stack depth maxDepth n (idx + 1) g2 best1
          else
            let origMatch = g2 ! idx;
                g3 = g2[idx := singleWildcardMatch]
            in
            if priv_match R stack g3 then Some (depth, g3)
            else
              let best2 = (if depth < maxDepth
                           then update_best best1 (priv_diff R stack g3 idx (depth + 1) maxDepth)
                           else best1);
                  g4 = g3[idx := origMatch]
              in diff_loop R stack depth maxDepth n (idx + 1) g4 best2)"
  by pat_completeness auto
termination
  by (relation "measures [
        (\<lambda>x. case x of Inl (R, stack, g, startIdx, depth, maxDepth) \<Rightarrow> maxDepth - depth
                       | Inr (R, stack, depth, maxDepth, n, idx, g, best) \<Rightarrow> maxDepth - depth),
        (\<lambda>x. case x of Inl (R, stack, g, startIdx, depth, maxDepth) \<Rightarrow> Suc (length g - startIdx)
                       | Inr (R, stack, depth, maxDepth, n, idx, g, best) \<Rightarrow> n - idx)]")
     auto

declare priv_diff.simps [simp del] diff_loop.simps [simp del]

text \<open>
  The \<^verbatim>\<open>while\<close> loop of \<^verbatim>\<open>StackFramesSymptom.diff\<close> that pops trailing wildcard
  names.
\<close>

function pop_trailing :: "string list \<Rightarrow> string list" where
  "pop_trailing guessedFunctionNames =
     (if guessedFunctionNames \<noteq> [] \<and>
         (last guessedFunctionNames = ''?'' \<or> last guessedFunctionNames = ''???'')
      then pop_trailing (butlast guessedFunctionNames)
      else guessedFunctionNames)"
  by pat_completeness auto
termination
  by (relation "measure length") auto

declare pop_trailing.simps [simp del]

text \<open>
  \<^verbatim>\<open>StackFramesSymptom.diff\<close>. The result is the pair of the source, each
  component possibly \<^verbatim>\<open>None\<close>; the new symptom is built by the constructor
  from a fresh object. \<open>diff_depths\<close> is the \<^verbatim>\<open>for\<close> loop over the depth limits
  \<^verbatim>\<open>range(1,4)\<close>.
\<close>

type_synonym diff_result = "nat option \<times> StackFramesSymptom option"

fun diff_depths :: "re_lib \<Rightarrow> string list \<Rightarrow> StringMatch list \<Rightarrow> nat list \<Rightarrow> error + diff_result" where
  "diff_depths R stack fns [] = Inr (None, None)"
| "diff_depths R stack fns (depth # depths) =
     (case priv_diff R stack fns 0 1 depth of
        None \<Rightarrow> diff_depths R stack fns depths
      | Some (bestDepth, bestGuess) \<Rightarrow>
          let guessedFunctionNames = pop_trailing (map StringMatch_repr bestGuess) in
          if guessedFunctionNames = [] then Inr (None, None)
          else
            (case StackFramesSymptom_init R
                    [(''type'', JString ''stackFrames''),
                     (''functionNames'', JArray (map JString guessedFunctionNames))] of
               Inl e \<Rightarrow> Inl e
             | Inr s \<Rightarrow> Inr (Some bestDepth, Some s)))"

definition StackFramesSymptom_diff ::
  "re_lib \<Rightarrow> StackFramesSymptom \<Rightarrow> CrashInfo \<Rightarrow> error + diff_result" where
  "StackFramesSymptom_diff R self crashInfo =
     (if StackFramesSymptom_matches R self crashInfo then Inr (Some 0, None)
      else diff_depths R (backtrace crashInfo) (functionNames self) [1, 2, 3])"

section \<open>The diff search on a store\<close>

text \<open>
  The list objects of the program: a store maps an address to the list that
  lives there, and \<open>fresh\<close> is the next unused address. A new list gets the
  next address; \<^verbatim>\<open>insert\<close>, \<^verbatim>\<open>pop\<close>, item assignment and \<^verbatim>\<open>append\<close> change the
  list at an address in place. Matchers and strings are immutable values.
\<close>

record store =
  cells :: "nat \<Rightarrow> StringMatch list"
  fresh :: nat

definition new_list :: "StringMatch list \<Rightarrow> store \<Rightarrow> nat \<times> store" where
  "new_list xs h = (fresh h, h\<lparr>cells := (cells h)(fresh h := xs), fresh := Suc (fresh h)\<rparr>)"

definition store_insert :: "nat \<Rightarrow> nat \<Rightarrow> StringMatch \<Rightarrow> store \<Rightarrow> store" where
  "store_insert a idx x h = h\<lparr>cells := (cells h)(a := list_insert idx x (cells h a))\<rparr>"

definition store_pop :: "nat \<Rightarrow> nat \<Rightarrow> store \<Rightarrow> store" where
  "store_pop a idx h = h\<lparr>cells := (cells h)(a := list_pop idx (cells h a))\<rparr>"

definition store_set :: "nat \<Rightarrow> nat \<Rightarrow> StringMatch \<Rightarrow> store \<Rightarrow> store" where
  "store_set a idx x h = h\<lparr>cells := (cells h)(a := (cells h a)[idx := x])\<rparr>"

text \<open>
  \<^verbatim>\<open>StackFramesSymptom._diff\<close> once more, now on references: the guess is the
  address of a list, the working copy is a new list, every edit is made in
  place on the working copy, and a result is a depth with the address of the
  list that matched. \<^verbatim>\<open>_match\<close> only reads the lists it is given (it takes
  slices, which are new lists), so it is applied to the contents.
\<close>

type_synonym guess_ref = "(nat \<times> nat) option"

definition update_best_ref :: "guess_ref \<Rightarrow> guess_ref \<Rightarrow> guess_ref" where
  "update_best_ref best new =
     (case new of
        None \<Rightarrow> best
      | Some (newBestDepth, newBestGuess) \<Rightarrow>
          (case best of
             None \<Rightarrow> new
           | Some (bestDepth, bestGuess) \<Rightarrow> if newBestDepth < bestDepth then new else best))"

function ref_diff ::
    "re_lib \<Rightarrow> string list \<Rightarrow> nat \<Rightarrow> nat \<Rightarrow> nat \<Rightarrow> nat \<Rightarrow> store \<Rightarrow> guess_ref \<times> store"
  and ref_loop ::
    "re_lib \<Rightarrow> string list \<Rightarrow> nat \<Rightarrow> nat \<Rightarrow> nat \<Rightarrow> nat \<Rightarrow> nat \<Rightarrow> guess_ref \<Rightarrow> store
       \<Rightarrow> guess_ref \<times> store"
where
  "ref_diff R stack signatureGuess startIdx depth maxDepth h =
     (case new_list ([] @ cells h signatureGuess) h of
        (newSignatureGuess, h0) \<Rightarrow>
          ref_loop R stack depth maxDepth (length (cells h0 newSignatureGuess)) startIdx
            newSignatureGuess None h0)"
| "ref_loop R stack depth maxDepth n idx newSignatureGuess best h =
     (if \<not> idx < n then (best, h)
      else
        let h1 = store_insert newSignatureGuess idx singleWildcardMatch h in
        if priv_match R stack (cells h1 newSignatureGuess) then (Some (depth, newSignatureGuess), h1)
        else
          case (if depth < maxDepth
                then (case ref_diff R stack newSignatureGuess idx (depth + 1) maxDepth h1 of
                        (new, h') \<Rightarrow> (update_best_ref best new, h'))
                else (best, h1)) of
            (best1, h2) \<Rightarrow>
          let h3 = store_pop newSignatureGuess idx h2 in
          if StringMatch_str (cells h3 newSignatureGuess ! idx) = ''?'' \<or>
             StringMatch_str (cells h3 newSignatureGuess ! idx) = ''???''
          then ref_loop R stack depth maxDepth n (idx + 1) newSignatureGuess best1 h3
          else
            let origMatch = cells h3 newSignatureGuess ! idx;
                h4 = store_set newSignatureGuess idx singleWildcardMatch h3
            in
            if priv_match R stack (cells h4 newSignatureGuess)
            then (Some (depth, newSignatureGuess), h4)
            else
              case (if depth < maxDepth
                    then (case ref_diff R stack newSignatureGuess idx (depth + 1) maxDepth h4 of
                            (new, h') \<Rightarrow> (update_best_ref best1 new, h'))
                    else (best1, h4)) of
                (best2, h5) \<Rightarrow>
              let h6 = store_set newSignatureGuess idx origMatch h5 in
              ref_loop R stack depth maxDepth n (idx + 1) newSignatureGuess best2 h6)"
  by pat_completeness auto
termination
  by (relation "measures [
        (\<lambda>x. case x of Inl (R, stack, g, startIdx, depth, maxDepth, h) \<Rightarrow> maxDepth - depth
                       | Inr (R, stack, depth, maxDepth, n, idx, a, best, h) \<Rightarrow> maxDepth - depth),
        (\<lambda>x. case x of Inl (R, stack, g, startIdx, depth, maxDepth, h) \<Rightarrow>
                           Suc (length (cells h g) - startIdx)
                       | Inr (R, stack, depth, maxDepth, n, idx, a, best, h) \<Rightarrow> n - idx)]")
     (auto simp: new_list_def)

declare ref_diff.simps [simp del] ref_loop.simps [simp del]

definition store_append :: "nat \<Rightarrow> StringMatch \<Rightarrow> store \<Rightarrow> store" where
  "store_append a x h = h\<lparr>cells := (cells h)(a := cells h a @ [x])\<rparr>"

text \<open>
  The symptom as an object whose field \<^verbatim>\<open>functionNames\<close> refers to a list, its
  constructor (a new empty list, then one \<^verbatim>\<open>append\<close> for each entry), and
  \<^verbatim>\<open>diff\<close> on such objects. \<open>deref\<close> reads a symptom object in a store.
\<close>

record StackFramesSymptom_ref = Symptom_base +
  functionNames_ref :: nat

fun ref_append_matchers :: "re_lib \<Rightarrow> json list \<Rightarrow> nat \<Rightarrow> store \<Rightarrow> error + store" where
  "ref_append_matchers R [] a h = Inr h"
| "ref_append_matchers R (fn # rawFunctionNames) a h =
     (case StringMatch_init R fn of
        Inl e \<Rightarrow> Inl e
      | Inr m \<Rightarrow> ref_append_matchers R rawFunctionNames a (store_append a m h))"

definition ref_StackFramesSymptom_init ::
  "re_lib \<Rightarrow> jobject \<Rightarrow> store \<Rightarrow> error + StackFramesSymptom_ref \<times> store" where
  "ref_StackFramesSymptom_init R obj h =
     (case new_list [] h of
        (fns, h0) \<Rightarrow>
          (case getArrayChecked obj ''functionNames'' True of
             Inl e \<Rightarrow> Inl e
           | Inr None \<Rightarrow> Inl (BadType ''functionNames'')
           | Inr (Some rawFunctionNames) \<Rightarrow>
               (case ref_append_matchers R rawFunctionNames fns h0 of
                  Inl e \<Rightarrow> Inl e
                | Inr h1 \<Rightarrow> Inr (\<lparr>jsonobj = obj, functionNames_ref = fns\<rparr>, h1))))"

type_synonym diff_result_ref = "nat option \<times> StackFramesSymptom_ref option"

fun ref_diff_depths ::
  "re_lib \<Rightarrow> string list \<Rightarrow> nat \<Rightarrow> nat list \<Rightarrow> store \<Rightarrow> error + diff_result_ref \<times> store" where
  "ref_diff_depths R stack fns [] h = Inr ((None, None), h)"
| "ref_diff_depths R stack fns (depth # depths) h =
     (case ref_diff R stack fns 0 1 depth h of
        (None, h') \<Rightarrow> ref_diff_depths R stack fns depths h'
      | (Some (bestDepth, bestGuess), h') \<Rightarrow>
          let guessedFunctionNames = pop_trailing (map StringMatch_repr (cells h' bestGuess)) in
          if guessedFunctionNames = [] then Inr ((None, None), h')
          else
            (case ref_StackFramesSymptom_init R
                    [(''type'', JString ''stackFrames''),
                     (''functionNames'', JArray (map JString guessedFunctionNames))] h' of
               Inl e \<Rightarrow> Inl e
             | Inr (s, h'') \<Rightarrow> Inr ((Some bestDepth, Some s), h'')))"

definition ref_StackFramesSymptom_diff ::
  "re_lib \<Rightarrow> StackFramesSymptom_ref \<Rightarrow> CrashInfo \<Rightarrow> store \<Rightarrow> error + diff_result_ref \<times> store" where
  "ref_StackFramesSymptom_diff R self crashInfo h =
     (if priv_match R (backtrace crashInfo) (cells h (functionNames_ref self))
      then Inr ((Some 0, None), h)
      else ref_diff_depths R (backtrace crashInfo) (functionNames_ref self) [1, 2, 3] h)"

definition deref :: "store \<Rightarrow> StackFramesSymptom_ref \<Rightarrow> StackFramesSymptom" where
  "deref h s = \<lparr>jsonobj = jsonobj s, functionNames = cells h (functionNames_ref s)\<rparr>"

section \<open>Reference definitions\<close>

text \<open>
  The recognizer in the words of the specification (section 4.4.7, steps 1 to
  4), to be compared with \<open>priv_match\<close>: the single-frame wildcard consumes
  exactly one frame. The specification gives no rule for a non-wildcard
  matcher left over an exhausted stack; it is rejected.
\<close>

function MATCH :: "re_lib \<Rightarrow> string list \<Rightarrow> StringMatch list \<Rightarrow> bool" where
  "MATCH R stack pat =
     (if pat \<noteq> [] \<and> stack \<noteq> [] \<and>
         StringMatch_str (hd pat) \<noteq> ''?'' \<and> StringMatch_str (hd pat) \<noteq> ''???''
      then (if StringMatch_matches R (hd pat) (hd stack) then MATCH R (tl stack) (tl pat)
            else False)
      else if pat = [] then True
      else if StringMatch_str (hd pat) = ''?''
        then (if stack = [] then False else MATCH R (tl stack) (tl pat))
      else if StringMatch_str (hd pat) = ''???''
        then (if MATCH R stack (tl pat) then True
              else if stack = [] then False
              else MATCH R (tl stack) pat)
      else False)"
  by pat_completeness auto
termination
  by (relation "measure (\<lambda>(R, stack, pat). length stack + length pat)")
     (auto simp: neq_Nil_conv)

declare MATCH.simps [simp del]

text \<open>
  A library with no regular expressions and no number grammar, for the
  concrete inputs below, which use literal matchers only.
\<close>

definition no_regex :: re_lib where
  "no_regex = \<lparr>re_compiles = (\<lambda>p. False), re_search = (\<lambda>p i s. False),
                number_spec = (\<lambda>s. None)\<rparr>"

text \<open>
  The wildcard test of the source, \<^verbatim>\<open>str(m) == '?' or str(m) == '???'\<close>, and one
  wildcard edit of a pattern: the insertion of the single-frame wildcard at any
  position, or the replacement of an entry that is no wildcard by it.
\<close>

definition wildcard :: "StringMatch \<Rightarrow> bool" where
  "wildcard m = (StringMatch_str m = ''?'' \<or> StringMatch_str m = ''???'')"

inductive wildcard_edit :: "StringMatch list \<Rightarrow> StringMatch list \<Rightarrow> bool" where
  insertion: "i \<le> length g \<Longrightarrow> wildcard_edit g (list_insert i singleWildcardMatch g)"
| replacement: "i < length g \<Longrightarrow> \<not> wildcard (g ! i) \<Longrightarrow>
     wildcard_edit g (g[i := singleWildcardMatch])"

text \<open>
  A literal matcher: what \<^verbatim>\<open>StringMatch\<close> builds from a bare string.
\<close>

definition literal :: "StringMatch \<Rightarrow> bool" where
  "literal m = (\<not> isPCRE m \<and> \<not> caseInsensitive m)"

text \<open>
  What a result of the bounded search at level \<open>depth\<close> has to be: a pattern that
  matches the stack, reached from the guess by as many wildcard edits as the
  levels from \<open>depth\<close> to the reported depth, which lies within the limit.
\<close>

definition found :: "re_lib \<Rightarrow> string list \<Rightarrow> nat \<Rightarrow> nat \<Rightarrow> StringMatch list \<Rightarrow> guess \<Rightarrow> bool" where
  "found R stack depth maxDepth g r =
     (case r of
        None \<Rightarrow> True
      | Some (bd, bg) \<Rightarrow>
          priv_match R stack bg \<and> depth \<le> bd \<and> bd \<le> maxDepth \<and>
          (wildcard_edit ^^ (Suc bd - depth)) g bg)"

text \<open>
  The test for the multi-frame wildcard.
\<close>

definition multi :: "StringMatch \<Rightarrow> bool" where
  "multi m = (StringMatch_str m = ''???'')"

text \<open>
  The object that \<^verbatim>\<open>diff\<close> hands to the constructor of the new symptom.
\<close>

definition stackFrames_object :: "string list \<Rightarrow> jobject" where
  "stackFrames_object names =
     [(''type'', JString ''stackFrames''), (''functionNames'', JArray (map JString names))]"

text \<open>
  An alignment of a pattern with one of its generalizations, counting the
  edits: entries are kept, the single-frame wildcard is inserted in front of a
  remaining entry, or put in the place of an entry that is no wildcard. It is
  the form in which the completeness of the search is proved.
\<close>

inductive aligned :: "nat \<Rightarrow> StringMatch list \<Rightarrow> StringMatch list \<Rightarrow> bool" where
  Nil: "aligned 0 [] []"
| keep: "aligned k g h \<Longrightarrow> aligned k (x # g) (x # h)"
| ins: "aligned k g h \<Longrightarrow> g \<noteq> [] \<Longrightarrow> aligned (Suc k) g (singleWildcardMatch # h)"
| rep: "aligned k g h \<Longrightarrow> \<not> wildcard x \<Longrightarrow> aligned (Suc k) (x # g) (singleWildcardMatch # h)"

text \<open>
  The value that a result on references stands for, and what one run of the
  loop and one call of the search on references have to satisfy: lists that
  existed before are left alone (but for the working copy, inside the loop),
  the result agrees with the search on values, a reported address is the
  working copy, the previous best or a newer list, and the working copy is as
  it was unless it is the result.
\<close>

definition contents :: "store \<Rightarrow> guess_ref \<Rightarrow> guess" where
  "contents h r = map_option (\<lambda>(d, x). (d, cells h x)) r"

definition loop_ok ::
  "re_lib \<Rightarrow> string list \<Rightarrow> nat \<Rightarrow> nat \<Rightarrow> nat \<Rightarrow> nat \<Rightarrow> guess_ref \<Rightarrow> store
     \<Rightarrow> guess_ref \<times> store \<Rightarrow> bool" where
  "loop_ok R stack depth maxDepth idx a best h res =
     (case res of
        (r, h') \<Rightarrow>
          fresh h \<le> fresh h' \<and>
          (\<forall>b < fresh h. b \<noteq> a \<longrightarrow> cells h' b = cells h b) \<and>
          contents h' r =
            diff_loop R stack depth maxDepth (length (cells h a)) idx (cells h a) (contents h best) \<and>
          (\<forall>d x. r = Some (d, x) \<longrightarrow>
             x < fresh h' \<and> (x = a \<or> (\<exists>d'. best = Some (d', x)) \<or> fresh h \<le> x)) \<and>
          ((\<forall>d. r \<noteq> Some (d, a)) \<longrightarrow> cells h' a = cells h a))"

definition diff_ok ::
  "re_lib \<Rightarrow> string list \<Rightarrow> nat \<Rightarrow> nat \<Rightarrow> nat \<Rightarrow> nat \<Rightarrow> store \<Rightarrow> guess_ref \<times> store \<Rightarrow> bool" where
  "diff_ok R stack signatureGuess startIdx depth maxDepth h res =
     (case res of
        (r, h') \<Rightarrow>
          fresh h < fresh h' \<and>
          (\<forall>b < fresh h. cells h' b = cells h b) \<and>
          contents h' r = priv_diff R stack (cells h signatureGuess) startIdx depth maxDepth \<and>
          (\<forall>d x. r = Some (d, x) \<longrightarrow> fresh h \<le> x \<and> x < fresh h') \<and>
          ((\<forall>d. r \<noteq> Some (d, fresh h)) \<longrightarrow> cells h' (fresh h) = cells h signatureGuess))"

text \<open>
  A later store that has left every list of an earlier store unchanged.
\<close>

definition frame_ok :: "store \<Rightarrow> store \<Rightarrow> bool" where
  "frame_ok h h' = (fresh h \<le> fresh h' \<and> (\<forall>b < fresh h. cells h' b = cells h b))"

text \<open>
  A store with one list, for a concrete run.
\<close>

definition store0 :: store where
  "store0 = \<lparr>cells = (\<lambda>a. [])(0 := map StringMatch_of_string [''A'', ''C'']), fresh = 1\<rparr>"

section \<open>Properties of the recognizer\<close>

lemma priv_match_Nil [simp]: "priv_match R stack [] = True"
  by (subst priv_match.simps) (cases stack; simp)

lemma match_loop_wild:
  "StringMatch_str p = ''?'' \<or> StringMatch_str p = ''???'' \<Longrightarrow>
   match_loop R stack (p # ps) = Some (stack, p # ps)"
  by (cases stack) auto

lemma priv_match_single:
  "StringMatch_str p = ''?'' \<Longrightarrow>
   priv_match R stack (p # ps) =
     (priv_match R stack ps \<or> (stack \<noteq> [] \<and> priv_match R (tl stack) ps))"
  by (subst priv_match.simps) (auto simp: match_loop_wild)

lemma priv_match_multi:
  "StringMatch_str p = ''???'' \<Longrightarrow>
   priv_match R stack (p # ps) =
     (priv_match R stack ps \<or> (stack \<noteq> [] \<and> priv_match R (tl stack) (p # ps)))"
  by (subst priv_match.simps) (auto simp: match_loop_wild)

lemma priv_match_plain_Nil:
  "StringMatch_str p \<noteq> ''?'' \<Longrightarrow> StringMatch_str p \<noteq> ''???'' \<Longrightarrow>
   priv_match R [] (p # ps) = False"
  by (subst priv_match.simps) simp

lemma priv_match_plain_Cons:
  "StringMatch_str p \<noteq> ''?'' \<Longrightarrow> StringMatch_str p \<noteq> ''???'' \<Longrightarrow>
   priv_match R (s # ss) (p # ps) = (StringMatch_matches R p s \<and> priv_match R ss ps)"
  by (subst priv_match.simps, subst (2) priv_match.simps) simp

text \<open>
  At the exit of the loop the pattern is exhausted, or starts with a wildcard,
  or the stack is exhausted: the branches of \<open>priv_match\<close> cover every exit,
  and the function never falls off its end.
\<close>

lemma match_loop_exit:
  "match_loop R st pt = Some (stack, pat) \<Longrightarrow>
   pat = [] \<or> StringMatch_str (hd pat) = ''?'' \<or> StringMatch_str (hd pat) = ''???'' \<or> stack = []"
  by (induction R st pt rule: match_loop.induct) (auto split: if_splits)

lemmas lit_simps = StringMatch_str_def StringMatch_repr_def StringMatch_of_string_def
  StringMatch_matches_def

lemma str_contains_refl [simp]: "str_contains s s"
  by (cases s) auto

lemma MATCH_Nil [simp]: "MATCH R stack [] = True"
  by (subst MATCH.simps) simp

lemma MATCH_single:
  "StringMatch_str p = ''?'' \<Longrightarrow>
   MATCH R stack (p # ps) = (stack \<noteq> [] \<and> MATCH R (tl stack) ps)"
  by (subst MATCH.simps) simp

lemma MATCH_plain_Cons:
  "StringMatch_str p \<noteq> ''?'' \<Longrightarrow> StringMatch_str p \<noteq> ''???'' \<Longrightarrow>
   MATCH R (s # ss) (p # ps) = (StringMatch_matches R p s \<and> MATCH R ss ps)"
  by (subst MATCH.simps) simp

lemma MATCH_plain_Nil:
  "StringMatch_str p \<noteq> ''?'' \<Longrightarrow> StringMatch_str p \<noteq> ''???'' \<Longrightarrow>
   MATCH R [] (p # ps) = False"
  by (subst MATCH.simps) simp

text \<open>
  Claim C1, as the code has it. \<open>priv_match\<close> is the recognizer with these
  rules: an empty pattern accepts whatever is left of the stack; a leading
  non-wildcard matcher needs a frame that it matches, and both are consumed; a
  leading \<^verbatim>\<open>???\<close> accepts if the rest of the pattern matches the current stack,
  and otherwise consumes one frame and is kept; a leading \<^verbatim>\<open>?\<close> accepts if the
  rest of the pattern matches the current stack (no frame consumed), and
  otherwise consumes one frame together with the wildcard. So the pattern
  \<^verbatim>\<open>[A, ?, C]\<close> matches \<^verbatim>\<open>[A, X, C]\<close> for every frame \<^verbatim>\<open>X\<close> and also matches
  \<^verbatim>\<open>[A, C]\<close>; it does not match the frames \<^verbatim>\<open>[A, X, Y, C]\<close>.
\<close>

theorem priv_match_recognizer:
  "priv_match R stack pat =
     (case pat of
        [] \<Rightarrow> True
      | p # ps \<Rightarrow>
          if StringMatch_str p = ''?''
            then priv_match R stack ps \<or> (stack \<noteq> [] \<and> priv_match R (tl stack) ps)
          else if StringMatch_str p = ''???''
            then priv_match R stack ps \<or> (stack \<noteq> [] \<and> priv_match R (tl stack) (p # ps))
          else stack \<noteq> [] \<and> StringMatch_matches R p (hd stack) \<and> priv_match R (tl stack) ps)
   \<and> priv_match R [''A'', X, ''C''] (map StringMatch_of_string [''A'', ''?'', ''C''])
   \<and> priv_match R [''A'', ''C''] (map StringMatch_of_string [''A'', ''?'', ''C''])
   \<and> \<not> priv_match R [''A'', ''X'', ''Y'', ''C''] (map StringMatch_of_string [''A'', ''?'', ''C''])"
proof (intro conjI)
  show "priv_match R stack pat =
     (case pat of
        [] \<Rightarrow> True
      | p # ps \<Rightarrow>
          if StringMatch_str p = ''?''
            then priv_match R stack ps \<or> (stack \<noteq> [] \<and> priv_match R (tl stack) ps)
          else if StringMatch_str p = ''???''
            then priv_match R stack ps \<or> (stack \<noteq> [] \<and> priv_match R (tl stack) (p # ps))
          else stack \<noteq> [] \<and> StringMatch_matches R p (hd stack) \<and> priv_match R (tl stack) ps)"
  proof (cases pat)
    case Nil
    then show ?thesis by simp
  next
    case (Cons p ps)
    show ?thesis
    proof (cases "StringMatch_str p = ''?'' \<or> StringMatch_str p = ''???''")
      case True
      then show ?thesis
        using Cons priv_match_single [of p R stack ps] priv_match_multi [of p R stack ps]
        by auto
    next
      case False
      then show ?thesis
        using Cons priv_match_plain_Nil [of p R ps]
          priv_match_plain_Cons [of p R "hd stack" "tl stack" ps]
        by (cases stack) auto
    qed
  qed
next
  show "priv_match R [''A'', X, ''C''] (map StringMatch_of_string [''A'', ''?'', ''C''])"
    by (simp add: priv_match_single priv_match_plain_Cons lit_simps)
next
  show "priv_match R [''A'', ''C''] (map StringMatch_of_string [''A'', ''?'', ''C''])"
    by (simp add: priv_match_single priv_match_plain_Cons lit_simps)
next
  show "\<not> priv_match R [''A'', ''X'', ''Y'', ''C''] (map StringMatch_of_string [''A'', ''?'', ''C''])"
    by (simp add: priv_match_single priv_match_plain_Cons lit_simps)
qed

theorem priv_match_recognizer_witness:
  "priv_match no_regex [''A'', ''B''] (map StringMatch_of_string [''A'', ''?'', ''C''])
     = priv_match no_regex [''B''] (map StringMatch_of_string [''?'', ''C''])
   \<and> priv_match no_regex [''A'', ''B'', ''C''] (map StringMatch_of_string [''A'', ''?'', ''C''])"
  using priv_match_recognizer
    [of no_regex "[''A'', ''B'']" "map StringMatch_of_string [''A'', ''?'', ''C'']" "''B''"]
  by (simp add: lit_simps)

text \<open>
  The claim as the specification words it fails: the code accepts the stack
  \<^verbatim>\<open>[A, C]\<close> for the pattern \<^verbatim>\<open>[A, ?, C]\<close>, which the specified recognizer
  rejects.
\<close>

theorem priv_match_single_frame_counterexample:
  "priv_match no_regex [''A'', ''C''] (map StringMatch_of_string [''A'', ''?'', ''C''])
   \<and> \<not> MATCH no_regex [''A'', ''C''] (map StringMatch_of_string [''A'', ''?'', ''C''])"
  by (simp add: priv_match_single priv_match_plain_Cons MATCH_single MATCH_plain_Cons
        MATCH_plain_Nil lit_simps)

section \<open>Properties of the constructors and of output matching\<close>

lemmas accessor_defs = getStringChecked_def getNumberChecked_def getArrayChecked_def
  getNumberOrStringChecked_def getObjectOrStringChecked_def py_value_def

lemma any_line_iff: "any_line R m ls = (\<exists>line \<in> set ls. StringMatch_matches R m line)"
  by (induction ls) auto

lemma append_matchers_length:
  "append_matchers R raw fns = Inr fns' \<Longrightarrow> length fns' = length fns + length raw"
  by (induction raw arbitrary: fns) (auto split: sum.splits)

lemma append_matchers_strings:
  "append_matchers R (map JString names) fns = Inr (fns @ map StringMatch_of_string names)"
  by (induction names arbitrary: fns) (auto simp: StringMatch_init_def)

text \<open>
  Claim C5. An object without the key \<^verbatim>\<open>type\<close> is refused with the
  missing-type error. An object whose \<^verbatim>\<open>type\<close> is a string outside the seven
  tags is refused with the unknown-type error, but the message is the same
  for every such tag: it ends in the printed form of Python's built-in
  \<^verbatim>\<open>type\<close>, and for the tag \<^verbatim>\<open>bogus\<close> it does not contain the tag.
\<close>

theorem fromJSONObject_type_errors:
  "(map_of obj ''type'' = None \<longrightarrow>
      fromJSONObject R obj = Inl (RuntimeError ''Missing symptom type in object''))
   \<and> (map_of obj ''type'' = Some (JString tag) \<and>
       tag \<notin> {''output'', ''stackFrame'', ''stackSize'', ''crashAddress'', ''instruction'',
                ''testcase'', ''stackFrames''} \<longrightarrow>
      fromJSONObject R obj = Inl (RuntimeError ''Unknown symptom type: <type 'type'>''))
   \<and> fromJSONObject R [(''type'', JString ''bogus'')] =
        Inl (RuntimeError ''Unknown symptom type: <type 'type'>'')
   \<and> \<not> str_contains ''bogus'' ''Unknown symptom type: <type 'type'>''"
  by (simp add: fromJSONObject_def builtin_type_str_def)

theorem fromJSONObject_type_errors_witness:
  "fromJSONObject no_regex [(''value'', JString ''x'')] =
     Inl (RuntimeError ''Missing symptom type in object'')
   \<and> fromJSONObject no_regex [(''type'', JString ''stackframe'')] =
     Inl (RuntimeError ''Unknown symptom type: <type 'type'>'')"
  using fromJSONObject_type_errors [where obj = "[(''value'', JString ''x'')]" and R = no_regex]
    fromJSONObject_type_errors [where obj = "[(''type'', JString ''stackframe'')]"
      and tag = "''stackframe''" and R = no_regex]
  by simp

text \<open>
  Claim C6. \<^verbatim>\<open>StackFrameSymptom.__init__\<close> reads \<^verbatim>\<open>functionName\<close> with the
  accessor for a number or a string, so a mapping is refused with the bad-type
  error before any matcher is built, whereas \<^verbatim>\<open>OutputSymptom.__init__\<close> reads
  its matcher with the accessor for a mapping or a string and accepts the same
  mapping. A bare string is accepted, and the frame number then defaults to
  the exact value 0.
\<close>

theorem StackFrameSymptom_init_functionName:
  "(map_of obj ''functionName'' = Some (JObject kv) \<longrightarrow>
      StackFrameSymptom_init R obj = Inl (BadType ''functionName''))
   \<and> StackFrameSymptom_init R
        [(''type'', JString ''stackFrame''), (''functionName'', JObject [(''value'', JString ''abort'')])]
      = Inl (BadType ''functionName'')
   \<and> OutputSymptom_init R
        [(''type'', JString ''output''), (''value'', JObject [(''value'', JString ''abort'')])]
      = Inr \<lparr>jsonobj = [(''type'', JString ''output''),
                          (''value'', JObject [(''value'', JString ''abort'')])],
             outputMatch = StringMatch_of_string ''abort'', src = None\<rparr>
   \<and> (map_of obj ''functionName'' = Some (JString s) \<and> map_of obj ''frameNumber'' = None \<longrightarrow>
      StackFrameSymptom_init R obj =
        Inr \<lparr>jsonobj = obj, functionName = StringMatch_of_string s, frameNumber = Exact 0\<rparr>)"
  by (simp add: StackFrameSymptom_init_def OutputSymptom_init_def accessor_defs
        StringMatch_init_def StringMatch_of_mapping_def StringMatch_of_string_def
        NumberMatch_init_def)

theorem StackFrameSymptom_init_functionName_witness:
  "StackFrameSymptom_init no_regex
     [(''type'', JString ''stackFrame''), (''functionName'', JString ''abort'')]
   = Inr \<lparr>jsonobj = [(''type'', JString ''stackFrame''), (''functionName'', JString ''abort'')],
          functionName = StringMatch_of_string ''abort'', frameNumber = Exact 0\<rparr>
   \<and> StackFrameSymptom_init no_regex
     [(''functionName'', JObject [(''value'', JString ''abort''), (''matchType'', JString ''pcre'')])]
   = Inl (BadType ''functionName'')"
  using StackFrameSymptom_init_functionName
      [where obj = "[(''type'', JString ''stackFrame''), (''functionName'', JString ''abort'')]"
         and R = no_regex and s = "''abort''"]
    StackFrameSymptom_init_functionName
      [where obj = "[(''functionName'', JObject [(''value'', JString ''abort''), (''matchType'', JString ''pcre'')])]"
         and kv = "[(''value'', JString ''abort''), (''matchType'', JString ''pcre'')]"
         and R = no_regex]
  by simp

text \<open>
  Claim C7, as the code has it. An object without the key \<^verbatim>\<open>functionNames\<close>
  is refused with the missing-field error. There is no check for an empty
  array: the constructor succeeds on it and yields a symptom with an empty
  matcher list. In general a symptom that is built has one matcher for each
  entry of the array.
\<close>

theorem StackFramesSymptom_init_functionNames:
  "(map_of obj ''functionNames'' = None \<longrightarrow>
      StackFramesSymptom_init R obj = Inl (MissingField ''functionNames''))
   \<and> (map_of obj ''functionNames'' = Some (JArray []) \<longrightarrow>
      StackFramesSymptom_init R obj = Inr \<lparr>jsonobj = obj, functionNames = []\<rparr>)
   \<and> (StackFramesSymptom_init R obj = Inr new \<longrightarrow>
      (\<exists>raw. map_of obj ''functionNames'' = Some (JArray raw) \<and>
             length (functionNames new) = length raw))"
proof (intro conjI impI)
  assume "map_of obj ''functionNames'' = None"
  then show "StackFramesSymptom_init R obj = Inl (MissingField ''functionNames'')"
    by (simp add: StackFramesSymptom_init_def accessor_defs)
next
  assume "map_of obj ''functionNames'' = Some (JArray [])"
  then show "StackFramesSymptom_init R obj = Inr \<lparr>jsonobj = obj, functionNames = []\<rparr>"
    by (simp add: StackFramesSymptom_init_def accessor_defs)
next
  assume a: "StackFramesSymptom_init R obj = Inr new"
  then obtain raw where raw: "map_of obj ''functionNames'' = Some (JArray raw)"
    by (auto simp: StackFramesSymptom_init_def accessor_defs
          split: option.splits json.splits if_splits)
  with a have "append_matchers R raw [] = Inr (functionNames new)"
    by (auto simp: StackFramesSymptom_init_def accessor_defs split: sum.splits)
  from append_matchers_length [OF this] raw
  show "\<exists>raw. map_of obj ''functionNames'' = Some (JArray raw) \<and>
             length (functionNames new) = length raw"
    by simp
qed

theorem StackFramesSymptom_init_functionNames_witness:
  "StackFramesSymptom_init no_regex [(''type'', JString ''stackFrames'')]
     = Inl (MissingField ''functionNames'')
   \<and> StackFramesSymptom_init no_regex
       [(''functionNames'', JArray []), (''type'', JString ''stackFrames'')]
     = Inr \<lparr>jsonobj = [(''functionNames'', JArray []), (''type'', JString ''stackFrames'')],
            functionNames = []\<rparr>"
  using StackFramesSymptom_init_functionNames
      [where obj = "[(''type'', JString ''stackFrames'')]" and R = no_regex]
    StackFramesSymptom_init_functionNames
      [where obj = "[(''functionNames'', JArray []), (''type'', JString ''stackFrames'')]"
         and R = no_regex]
  by simp

text \<open>
  The claim as stated fails: the empty array is accepted.
\<close>

theorem StackFramesSymptom_init_empty_counterexample:
  "StackFramesSymptom_init no_regex
     [(''type'', JString ''stackFrames''), (''functionNames'', JArray [])]
   = Inr \<lparr>jsonobj = [(''type'', JString ''stackFrames''), (''functionNames'', JArray [])],
          functionNames = []\<rparr>"
  by (simp add: StackFramesSymptom_init_def accessor_defs)

text \<open>
  Claim C8. \<^verbatim>\<open>OutputSymptom.matches\<close> is true exactly when the matcher accepts
  some line of the selected output: the lines of standard output followed by
  those of standard error when no source is set, the lines of standard output
  alone for the source \<^verbatim>\<open>stdout\<close>, those of standard error alone for \<^verbatim>\<open>stderr\<close>.
  A symptom that the constructor builds has no source or one of these two, and
  its source is the lowercased string of the object. A string that is neither
  of the two after lowercasing is always refused, and with the invalid-source
  error whenever the matcher of \<^verbatim>\<open>value\<close> was built.
\<close>

theorem OutputSymptom_contract:
  "(src self = None \<longrightarrow>
      OutputSymptom_matches R self crashInfo =
        (\<exists>line \<in> set (rawStdout crashInfo @ rawStderr crashInfo).
           StringMatch_matches R (outputMatch self) line))
   \<and> (src self = Some ''stdout'' \<longrightarrow>
      OutputSymptom_matches R self crashInfo =
        (\<exists>line \<in> set (rawStdout crashInfo). StringMatch_matches R (outputMatch self) line))
   \<and> (src self = Some ''stderr'' \<longrightarrow>
      OutputSymptom_matches R self crashInfo =
        (\<exists>line \<in> set (rawStderr crashInfo). StringMatch_matches R (outputMatch self) line))
   \<and> (OutputSymptom_init R obj = Inr new \<longrightarrow>
        (src new = None \<or> src new = Some ''stdout'' \<or> src new = Some ''stderr'')
        \<and> (map_of obj ''src'' = None \<longrightarrow> src new = None)
        \<and> (map_of obj ''src'' = Some (JString s) \<longrightarrow> src new = Some (lower s)))
   \<and> (map_of obj ''src'' = Some (JString s) \<and> lower s \<noteq> ''stdout'' \<and> lower s \<noteq> ''stderr'' \<longrightarrow>
        (\<exists>e. OutputSymptom_init R obj = Inl e)
        \<and> (getObjectOrStringChecked obj ''value'' True = Inr v \<and>
            StringMatch_init R (py_value v) = Inr m \<longrightarrow>
            OutputSymptom_init R obj =
              Inl (RuntimeError (''Invalid source specified: '' @ lower s))))"
proof (intro conjI impI)
  assume "src self = None"
  then show "OutputSymptom_matches R self crashInfo =
        (\<exists>line \<in> set (rawStdout crashInfo @ rawStderr crashInfo).
           StringMatch_matches R (outputMatch self) line)"
    by (simp add: OutputSymptom_matches_def any_line_iff)
next
  assume "src self = Some ''stdout''"
  then show "OutputSymptom_matches R self crashInfo =
        (\<exists>line \<in> set (rawStdout crashInfo). StringMatch_matches R (outputMatch self) line)"
    by (simp add: OutputSymptom_matches_def any_line_iff)
next
  assume "src self = Some ''stderr''"
  then show "OutputSymptom_matches R self crashInfo =
        (\<exists>line \<in> set (rawStderr crashInfo). StringMatch_matches R (outputMatch self) line)"
    by (simp add: OutputSymptom_matches_def any_line_iff)
next
  assume a: "OutputSymptom_init R obj = Inr new"
  show "src new = None \<or> src new = Some ''stdout'' \<or> src new = Some ''stderr''"
    using a by (auto simp: OutputSymptom_init_def split: sum.splits option.splits if_splits)
  show "src new = None" if "map_of obj ''src'' = None"
    using a that
    by (auto simp: OutputSymptom_init_def getStringChecked_def
          split: sum.splits option.splits if_splits)
  show "src new = Some (lower s)" if "map_of obj ''src'' = Some (JString s)"
    using a that
    by (auto simp: OutputSymptom_init_def getStringChecked_def
          split: sum.splits option.splits if_splits)
next
  assume b: "map_of obj ''src'' = Some (JString s) \<and> lower s \<noteq> ''stdout'' \<and> lower s \<noteq> ''stderr''"
  then have g: "getStringChecked obj ''src'' False = Inr (Some s)"
    by (simp add: getStringChecked_def)
  show "\<exists>e. OutputSymptom_init R obj = Inl e"
    using b g by (auto simp: OutputSymptom_init_def split: sum.splits option.splits)
  show "OutputSymptom_init R obj = Inl (RuntimeError (''Invalid source specified: '' @ lower s))"
    if "getObjectOrStringChecked obj ''value'' True = Inr v \<and>
        StringMatch_init R (py_value v) = Inr m"
    using b g that by (simp add: OutputSymptom_init_def)
qed

theorem OutputSymptom_contract_witness:
  "OutputSymptom_matches no_regex
      \<lparr>jsonobj = [], outputMatch = StringMatch_of_string ''Assertion failure'',
       src = Some ''stderr''\<rparr>
      \<lparr>rawStdout = [''Assertion failure''], rawStderr = [''foo'', ''Assertion failure: bar''],
       backtrace = [], crashAddress = None, crashInstruction = None, testcase = None\<rparr>
   \<and> \<not> OutputSymptom_matches no_regex
      \<lparr>jsonobj = [], outputMatch = StringMatch_of_string ''Assertion failure'',
       src = Some ''stderr''\<rparr>
      \<lparr>rawStdout = [''Assertion failure''], rawStderr = [''foo''],
       backtrace = [], crashAddress = None, crashInstruction = None, testcase = None\<rparr>
   \<and> OutputSymptom_init no_regex
        [(''type'', JString ''output''), (''value'', JString ''x''), (''src'', JString ''Syslog'')]
      = Inl (RuntimeError ''Invalid source specified: syslog'')"
proof -
  let ?self = "\<lparr>jsonobj = [], outputMatch = StringMatch_of_string ''Assertion failure'',
       src = Some ''stderr''\<rparr>"
  let ?obj = "[(''type'', JString ''output''), (''value'', JString ''x''), (''src'', JString ''Syslog'')]"
  have low: "lower ''Syslog'' = ''syslog''"
    by (simp add: lower_def lower_char_def)
  have v: "getObjectOrStringChecked ?obj ''value'' True = Inr (Some (JString ''x'')) \<and>
           StringMatch_init no_regex (py_value (Some (JString ''x''))) = Inr (StringMatch_of_string ''x'')"
    by (simp add: accessor_defs StringMatch_init_def)
  show ?thesis
    using OutputSymptom_contract [where self = ?self and R = no_regex and crashInfo =
        "\<lparr>rawStdout = [''Assertion failure''], rawStderr = [''foo'', ''Assertion failure: bar''],
          backtrace = [], crashAddress = None, crashInstruction = None, testcase = None\<rparr>"
        and obj = ?obj and s = "''Syslog''" and v = "Some (JString ''x'')"
        and m = "StringMatch_of_string ''x''"]
      OutputSymptom_contract [where self = ?self and R = no_regex and crashInfo =
        "\<lparr>rawStdout = [''Assertion failure''], rawStderr = [''foo''],
          backtrace = [], crashAddress = None, crashInstruction = None, testcase = None\<rparr>"]
      low v
    by (simp add: lit_simps)
qed

section \<open>Properties of the diff search\<close>

lemma list_pop_insert [simp]: "idx \<le> length xs \<Longrightarrow> list_pop idx (list_insert idx x xs) = xs"
  by (simp add: list_pop_def list_insert_def min_def)

lemma length_list_insert [simp]: "length (list_insert idx x xs) = Suc (length xs)"
  by (simp add: list_insert_def)

lemma priv_diff_loop:
  "priv_diff R stack g startIdx depth maxDepth =
     diff_loop R stack depth maxDepth (length g) startIdx g None"
  by (simp add: priv_diff.simps)

lemma diff_loop_done:
  "\<not> idx < n \<Longrightarrow> diff_loop R stack depth maxDepth n idx g best = best"
  by (subst diff_loop.simps) simp

lemma diff_loop_step:
  assumes "idx < length g"
  shows "diff_loop R stack depth maxDepth (length g) idx g best =
     (if priv_match R stack (list_insert idx singleWildcardMatch g)
      then Some (depth, list_insert idx singleWildcardMatch g)
      else
        let best1 = (if depth < maxDepth
                     then update_best best
                            (priv_diff R stack (list_insert idx singleWildcardMatch g) idx
                               (depth + 1) maxDepth)
                     else best)
        in
        if wildcard (g ! idx)
        then diff_loop R stack depth maxDepth (length g) (idx + 1) g best1
        else if priv_match R stack (g[idx := singleWildcardMatch])
        then Some (depth, g[idx := singleWildcardMatch])
        else
          let best2 = (if depth < maxDepth
                       then update_best best1
                              (priv_diff R stack (g[idx := singleWildcardMatch]) idx
                                 (depth + 1) maxDepth)
                       else best1)
          in diff_loop R stack depth maxDepth (length g) (idx + 1) g best2)"
  using assms by (subst diff_loop.simps) (simp add: Let_def wildcard_def)

lemma diff_loop_induct [case_names step]:
  assumes step: "\<And>depth idx g best.
      (idx < length g \<Longrightarrow> depth < maxDepth \<Longrightarrow>
         P (Suc depth) idx (list_insert idx singleWildcardMatch g) None) \<Longrightarrow>
      (idx < length g \<Longrightarrow> depth < maxDepth \<Longrightarrow> \<not> wildcard (g ! idx) \<Longrightarrow>
         P (Suc depth) idx (g[idx := singleWildcardMatch]) None) \<Longrightarrow>
      (\<And>best'. idx < length g \<Longrightarrow> P depth (Suc idx) g best') \<Longrightarrow>
      P depth idx g best"
  shows "P depth idx g best"
proof (induction "maxDepth - depth" arbitrary: depth idx g best rule: less_induct)
  case (less depth idx g best)
  note outer = less
  show ?case
  proof (induction "length g - idx" arbitrary: idx best rule: less_induct)
    case (less idx best)
    show ?case
    proof (rule step)
      assume "idx < length g" "depth < maxDepth"
      then have "maxDepth - Suc depth < maxDepth - depth"
        by simp
      then show "P (Suc depth) idx (list_insert idx singleWildcardMatch g) None"
        by (rule outer)
    next
      assume "idx < length g" "depth < maxDepth"
      then have "maxDepth - Suc depth < maxDepth - depth"
        by simp
      then show "P (Suc depth) idx (g[idx := singleWildcardMatch]) None"
        by (rule outer)
    next
      fix best'
      assume "idx < length g"
      then have "length g - Suc idx < length g - idx"
        by simp
      then show "P depth (Suc idx) g best'"
        by (rule less)
    qed
  qed
qed


lemma update_best_Some:
  "update_best best new = Some r \<Longrightarrow> best = Some r \<or> new = Some r"
  by (auto simp: update_best_def split: option.splits prod.splits if_splits)

lemma update_best_None [simp]:
  "update_best best new = None \<longleftrightarrow> best = None \<and> new = None"
  by (auto simp: update_best_def split: option.splits prod.splits if_splits)

lemma wildcard_single [simp]: "wildcard singleWildcardMatch"
  by (simp add: wildcard_def singleWildcardMatch_def lit_simps)

lemma found_None [simp]: "found R stack depth maxDepth g None"
  by (simp add: found_def)

lemma found_deeper:
  assumes "found R stack (Suc depth) maxDepth g1 r" and "wildcard_edit g g1"
  shows "found R stack depth maxDepth g r"
proof (cases r)
  case None
  then show ?thesis by (simp add: found_def)
next
  case (Some p)
  obtain bd bg where p: "p = (bd, bg)" by (cases p)
  from assms(1) Some p have m: "priv_match R stack bg" and le: "Suc depth \<le> bd" "bd \<le> maxDepth"
    and e: "(wildcard_edit ^^ (Suc bd - Suc depth)) g1 bg"
    by (simp_all add: found_def)
  from le have "Suc bd - depth = Suc (Suc bd - Suc depth)" by simp
  with relpowp_Suc_I2 [OF assms(2) e] have "(wildcard_edit ^^ (Suc bd - depth)) g bg"
    by simp
  with m le Some p show ?thesis by (simp add: found_def)
qed

lemma found_update:
  "found R stack depth maxDepth g best \<Longrightarrow> found R stack depth maxDepth g new \<Longrightarrow>
   found R stack depth maxDepth g (update_best best new)"
  by (auto simp: update_best_def split: option.splits prod.splits)

lemma diff_loop_found:
  assumes "depth \<le> maxDepth" and "found R stack depth maxDepth g best"
  shows "found R stack depth maxDepth g
           (diff_loop R stack depth maxDepth (length g) idx g best)"
  using assms
proof (induction depth idx g best rule: diff_loop_induct [where maxDepth = maxDepth])
  case (step depth idx g best)
  show ?case
  proof (cases "idx < length g")
    case False
    then show ?thesis using step.prems by (simp add: diff_loop_done)
  next
    case True
    let ?w = singleWildcardMatch
    let ?g1 = "list_insert idx ?w g"
    let ?g3 = "g[idx := ?w]"
    let ?best1 = "if depth < maxDepth
                  then update_best best (priv_diff R stack ?g1 idx (depth + 1) maxDepth)
                  else best"
    let ?best2 = "if depth < maxDepth
                  then update_best ?best1 (priv_diff R stack ?g3 idx (depth + 1) maxDepth)
                  else ?best1"
    have e1: "wildcard_edit g ?g1"
      using True by (intro wildcard_edit.insertion) simp
    have b1: "found R stack depth maxDepth g ?best1"
    proof (cases "depth < maxDepth")
      case False
      then show ?thesis using step.prems by simp
    next
      case d: True
      have "found R stack (Suc depth) maxDepth ?g1
              (diff_loop R stack (Suc depth) maxDepth (length ?g1) idx ?g1 None)"
        using True d by (intro step.IH(1)) simp_all
      then have "found R stack depth maxDepth g (priv_diff R stack ?g1 idx (depth + 1) maxDepth)"
        using e1 by (auto simp: priv_diff_loop intro: found_deeper)
      then show ?thesis using d step.prems by (simp add: found_update)
    qed
    have next_it: "found R stack depth maxDepth g
                     (diff_loop R stack depth maxDepth (length g) (Suc idx) g b)"
      if "found R stack depth maxDepth g b" for b
      using True step.prems(1) that by (intro step.IH(3))
    show ?thesis
    proof (cases "priv_match R stack ?g1")
      case m1: True
      have "(wildcard_edit ^^ (Suc depth - depth)) g ?g1"
        using e1 by auto
      then show ?thesis
        using True m1 step.prems(1) by (simp add: diff_loop_step found_def)
    next
      case m1: False
      show ?thesis
      proof (cases "wildcard (g ! idx)")
        case w: True
        then show ?thesis
          using True m1 next_it [OF b1] by (simp add: diff_loop_step Let_def)
      next
        case w: False
        have e3: "wildcard_edit g ?g3"
          using True w by (intro wildcard_edit.replacement)
        show ?thesis
        proof (cases "priv_match R stack ?g3")
          case m3: True
          have "(wildcard_edit ^^ (Suc depth - depth)) g ?g3"
            using e3 by auto
          then show ?thesis
            using True m1 w m3 step.prems(1) by (simp add: diff_loop_step found_def Let_def)
        next
          case m3: False
          have b2: "found R stack depth maxDepth g ?best2"
          proof (cases "depth < maxDepth")
            case False
            then show ?thesis using b1 by simp
          next
            case d: True
            have "found R stack (Suc depth) maxDepth ?g3
                    (diff_loop R stack (Suc depth) maxDepth (length ?g3) idx ?g3 None)"
              using True d w by (intro step.IH(2)) simp_all
            then have "found R stack depth maxDepth g
                         (priv_diff R stack ?g3 idx (depth + 1) maxDepth)"
              using e3 by (auto simp: priv_diff_loop intro: found_deeper)
            then show ?thesis using d b1 by (simp add: found_update)
          qed
          show ?thesis
            using True m1 w m3 next_it [OF b2] by (simp add: diff_loop_step Let_def)
        qed
      qed
    qed
  qed
qed

lemma priv_diff_found:
  "depth \<le> maxDepth \<Longrightarrow>
   found R stack depth maxDepth g (priv_diff R stack g startIdx depth maxDepth)"
  by (simp add: priv_diff_loop diff_loop_found)

lemma priv_match_multi_Nil:
  "StringMatch_str p = ''???'' \<Longrightarrow> priv_match R [] (p # ps) = priv_match R [] ps"
  by (subst priv_match_multi) simp_all

lemma priv_match_multi_Cons:
  "StringMatch_str p = ''???'' \<Longrightarrow>
   priv_match R (s # ss) (p # ps) = (priv_match R (s # ss) ps \<or> priv_match R ss (p # ps))"
  by (subst priv_match_multi) simp_all

lemma priv_match_prefix:
  "priv_match R stack (p @ q) \<Longrightarrow> priv_match R stack p"
proof (induction p arbitrary: stack)
  case Nil
  show ?case by simp
next
  case (Cons x xs)
  note IH = Cons.IH
  show ?case
  proof (cases "StringMatch_str x = ''?''")
    case True
    from Cons.prems have "priv_match R stack (xs @ q) \<or>
        (stack \<noteq> [] \<and> priv_match R (tl stack) (xs @ q))"
      using priv_match_single [OF True, of R stack "xs @ q"] by simp
    then have "priv_match R stack xs \<or> (stack \<noteq> [] \<and> priv_match R (tl stack) xs)"
      using IH by blast
    then show ?thesis
      using priv_match_single [OF True, of R stack xs] by simp
  next
    case q: False
    show ?thesis
    proof (cases "StringMatch_str x = ''???''")
      case True
      from Cons.prems show ?thesis
      proof (induction stack)
        case Nil
        then have "priv_match R [] (xs @ q)"
          by (simp add: priv_match_multi_Nil [OF True])
        then have "priv_match R [] xs" by (rule IH)
        then show ?case by (simp add: priv_match_multi_Nil [OF True])
      next
        case (Cons s ss)
        then have "priv_match R (s # ss) (xs @ q) \<or> priv_match R ss (x # xs @ q)"
          by (simp add: priv_match_multi_Cons [OF True])
        then have "priv_match R (s # ss) xs \<or> priv_match R ss (x # xs)"
          using IH Cons.IH by auto
        then show ?case by (simp add: priv_match_multi_Cons [OF True])
      qed
    next
      case False
      show ?thesis
      proof (cases stack)
        case Nil
        with Cons.prems q False show ?thesis
          by (simp add: priv_match_plain_Nil)
      next
        case (Cons s ss)
        with Cons.prems q False have "StringMatch_matches R x s \<and> priv_match R ss (xs @ q)"
          by (simp add: priv_match_plain_Cons)
        then have "StringMatch_matches R x s \<and> priv_match R ss xs"
          using IH by blast
        with Cons q False show ?thesis
          by (simp add: priv_match_plain_Cons)
      qed
    qed
  qed
qed

lemma pop_trailing_prefix:
  "\<exists>ws. names = pop_trailing names @ ws \<and> set ws \<subseteq> {''?'', ''???''}"
proof (induction names rule: pop_trailing.induct)
  case (1 names)
  show ?case
  proof (cases "names \<noteq> [] \<and> (last names = ''?'' \<or> last names = ''???'')")
    case True
    with 1 obtain ws where ws: "butlast names = pop_trailing (butlast names) @ ws"
      "set ws \<subseteq> {''?'', ''???''}"
      by blast
    have eq: "pop_trailing names = pop_trailing (butlast names)"
      using True by (subst pop_trailing.simps) simp
    have "names = butlast names @ [last names]"
      using True by simp
    then have "names = (pop_trailing (butlast names) @ ws) @ [last names]"
      using ws(1) by metis
    then have a: "names = pop_trailing names @ (ws @ [last names])"
      by (simp add: eq)
    have b: "set (ws @ [last names]) \<subseteq> {''?'', ''???''}"
      using True ws(2) by auto
    show ?thesis
      by (rule exI [of _ "ws @ [last names]"]) (use a b in blast)
  next
    case False
    then have "pop_trailing names = names"
      by (subst pop_trailing.simps) auto
    then show ?thesis by simp
  qed
qed

lemma pop_trailing_last:
  "pop_trailing names = [] \<or>
   (last (pop_trailing names) \<noteq> ''?'' \<and> last (pop_trailing names) \<noteq> ''???'')"
proof (induction names rule: pop_trailing.induct)
  case (1 names)
  show ?case
  proof (cases "names \<noteq> [] \<and> (last names = ''?'' \<or> last names = ''???'')")
    case True
    then have "pop_trailing names = pop_trailing (butlast names)"
      by (subst pop_trailing.simps) simp
    with 1 True show ?thesis by simp
  next
    case False
    then have "pop_trailing names = names"
      by (subst pop_trailing.simps) auto
    with False show ?thesis by auto
  qed
qed

lemma literal_single [simp]: "literal singleWildcardMatch"
  by (simp add: literal_def singleWildcardMatch_def StringMatch_of_string_def)

lemma literal_of_string [simp]: "literal (StringMatch_of_string s)"
  by (simp add: literal_def StringMatch_of_string_def)

lemma literal_repr: "literal m \<Longrightarrow> StringMatch_of_string (StringMatch_repr m) = m"
  by (simp add: literal_def StringMatch_of_string_def StringMatch_repr_def)

lemma set_list_insert [simp]: "set (list_insert i x xs) = insert x (set xs)"
proof -
  have "set (take i xs) \<union> set (drop i xs) = set xs"
    by (metis append_take_drop_id set_append)
  then show ?thesis by (auto simp: list_insert_def)
qed

lemma wildcard_edit_set:
  "wildcard_edit g g' \<Longrightarrow> set g' \<subseteq> insert singleWildcardMatch (set g)"
proof (induction rule: wildcard_edit.induct)
  case (insertion i g)
  show ?case by simp
next
  case (replacement i g)
  show ?case by (rule set_update_subset_insert)
qed

lemma wildcard_edits_set:
  "(wildcard_edit ^^ k) g g' \<Longrightarrow> set g' \<subseteq> insert singleWildcardMatch (set g)"
proof (induction k arbitrary: g')
  case 0
  then show ?case by auto
next
  case (Suc k)
  then obtain h where "(wildcard_edit ^^ k) g h" "wildcard_edit h g'" by auto
  with Suc.IH [of h] wildcard_edit_set [of h g'] show ?case by auto
qed

lemma wildcard_edit_multi:
  "wildcard_edit g g' \<Longrightarrow> filter multi g' = filter multi g"
proof (induction rule: wildcard_edit.induct)
  case (insertion i g)
  have "\<not> multi singleWildcardMatch"
    by (simp add: multi_def singleWildcardMatch_def lit_simps)
  then have "filter multi (list_insert i singleWildcardMatch g) =
             filter multi (take i g) @ filter multi (drop i g)"
    by (simp add: list_insert_def)
  then show ?case
    by (metis append_take_drop_id filter_append)
next
  case (replacement i g)
  have a: "\<not> multi singleWildcardMatch"
    by (simp add: multi_def singleWildcardMatch_def lit_simps)
  have b: "\<not> multi (g ! i)"
    using replacement(2) by (simp add: multi_def wildcard_def)
  have "filter multi (g[i := singleWildcardMatch]) =
        filter multi (take i g) @ filter multi (drop (Suc i) g)"
    using replacement(1) a by (simp add: upd_conv_take_nth_drop)
  also have "\<dots> = filter multi (take i g @ g ! i # drop (Suc i) g)"
    using b by simp
  also have "\<dots> = filter multi g"
    using replacement(1) by (simp add: id_take_nth_drop [symmetric])
  finally show ?case .
qed

lemma wildcard_edits_multi:
  "(wildcard_edit ^^ k) g g' \<Longrightarrow> filter multi g' = filter multi g"
proof (induction k arbitrary: g')
  case 0
  then show ?case by auto
next
  case (Suc k)
  then obtain h where "(wildcard_edit ^^ k) g h" "wildcard_edit h g'" by auto
  with Suc.IH [of h] wildcard_edit_multi [of h g'] show ?case by auto
qed

section \<open>Properties of diff\<close>

lemma StackFramesSymptom_init_strings:
  "StackFramesSymptom_init R
     [(''type'', JString ''stackFrames''), (''functionNames'', JArray (map JString names))] =
   Inr \<lparr>jsonobj = stackFrames_object names,
        functionNames = map StringMatch_of_string names\<rparr>"
  using append_matchers_strings [of R names "[]"]
  by (simp add: StackFramesSymptom_init_def accessor_defs stackFrames_object_def)

lemma diff_depths_result:
  assumes "diff_depths R stack fns ds = Inr (dopt, sopt)"
  shows "(dopt = None \<and> sopt = None) \<or>
         (\<exists>pre m post bd bg.
            ds = pre @ m # post \<and>
            (\<forall>m' \<in> set pre. priv_diff R stack fns 0 1 m' = None) \<and>
            priv_diff R stack fns 0 1 m = Some (bd, bg) \<and>
            dopt = Some bd \<and>
            pop_trailing (map StringMatch_repr bg) \<noteq> [] \<and>
            sopt = Some \<lparr>jsonobj = stackFrames_object (pop_trailing (map StringMatch_repr bg)),
                         functionNames = map StringMatch_of_string
                                           (pop_trailing (map StringMatch_repr bg))\<rparr>)"
  using assms
proof (induction ds)
  case Nil
  then show ?case by simp
next
  case (Cons d ds)
  show ?case
  proof (cases "priv_diff R stack fns 0 1 d")
    case None
    with Cons.prems have "diff_depths R stack fns ds = Inr (dopt, sopt)" by simp
    from Cons.IH [OF this] show ?thesis
    proof
      assume "dopt = None \<and> sopt = None"
      then show ?thesis by simp
    next
      assume "\<exists>pre m post bd bg.
            ds = pre @ m # post \<and>
            (\<forall>m' \<in> set pre. priv_diff R stack fns 0 1 m' = None) \<and>
            priv_diff R stack fns 0 1 m = Some (bd, bg) \<and>
            dopt = Some bd \<and>
            pop_trailing (map StringMatch_repr bg) \<noteq> [] \<and>
            sopt = Some \<lparr>jsonobj = stackFrames_object (pop_trailing (map StringMatch_repr bg)),
                         functionNames = map StringMatch_of_string
                                           (pop_trailing (map StringMatch_repr bg))\<rparr>"
      then obtain pre m post bd bg where h:
        "ds = pre @ m # post"
        "\<forall>m' \<in> set pre. priv_diff R stack fns 0 1 m' = None"
        "priv_diff R stack fns 0 1 m = Some (bd, bg)"
        "dopt = Some bd"
        "pop_trailing (map StringMatch_repr bg) \<noteq> []"
        "sopt = Some \<lparr>jsonobj = stackFrames_object (pop_trailing (map StringMatch_repr bg)),
                       functionNames = map StringMatch_of_string
                                         (pop_trailing (map StringMatch_repr bg))\<rparr>"
        by blast
      have "d # ds = (d # pre) @ m # post" using h(1) by simp
      moreover have "\<forall>m' \<in> set (d # pre). priv_diff R stack fns 0 1 m' = None"
        using h(2) None by simp
      ultimately show ?thesis using h(3-6) by blast
    qed
  next
    case (Some r)
    obtain bd bg where r: "r = (bd, bg)" by (cases r)
    show ?thesis
    proof (cases "pop_trailing (map StringMatch_repr bg) = []")
      case True
      with Cons.prems Some r show ?thesis by simp
    next
      case False
      with Cons.prems Some r have
        "dopt = Some bd"
        "sopt = Some \<lparr>jsonobj = stackFrames_object (pop_trailing (map StringMatch_repr bg)),
                       functionNames = map StringMatch_of_string
                                         (pop_trailing (map StringMatch_repr bg))\<rparr>"
        by (auto simp: StackFramesSymptom_init_strings Let_def)
      moreover have "d # ds = [] @ d # ds" by simp
      moreover have "\<forall>m' \<in> set []. priv_diff R stack fns 0 1 m' = None" by simp
      ultimately show ?thesis using Some r False by blast
    qed
  qed
qed


lemma diff_result:
  assumes "StackFramesSymptom_diff R self crashInfo = Inr (dopt, sopt)"
  shows "(StackFramesSymptom_matches R self crashInfo \<and> dopt = Some 0 \<and> sopt = None) \<or>
         (\<not> StackFramesSymptom_matches R self crashInfo \<and> dopt = None \<and> sopt = None) \<or>
         (\<not> StackFramesSymptom_matches R self crashInfo \<and>
          (\<exists>m bd bg.
            1 \<le> m \<and> m \<le> 3 \<and>
            (\<forall>m'. 1 \<le> m' \<and> m' < m \<longrightarrow>
               priv_diff R (backtrace crashInfo) (functionNames self) 0 1 m' = None) \<and>
            priv_diff R (backtrace crashInfo) (functionNames self) 0 1 m = Some (bd, bg) \<and>
            dopt = Some bd \<and>
            pop_trailing (map StringMatch_repr bg) \<noteq> [] \<and>
            sopt = Some \<lparr>jsonobj = stackFrames_object (pop_trailing (map StringMatch_repr bg)),
                         functionNames = map StringMatch_of_string
                                           (pop_trailing (map StringMatch_repr bg))\<rparr>))"
proof (cases "StackFramesSymptom_matches R self crashInfo")
  case True
  with assms show ?thesis by (simp add: StackFramesSymptom_diff_def)
next
  case False
  with assms have d: "diff_depths R (backtrace crashInfo) (functionNames self) [1, 2, 3]
      = Inr (dopt, sopt)"
    by (simp add: StackFramesSymptom_diff_def)
  from diff_depths_result [OF d] show ?thesis
  proof
    assume "dopt = None \<and> sopt = None"
    with False show ?thesis by simp
  next
    assume "\<exists>pre m post bd bg.
            [1, 2, 3] = pre @ m # post \<and>
            (\<forall>m' \<in> set pre. priv_diff R (backtrace crashInfo) (functionNames self) 0 1 m' = None) \<and>
            priv_diff R (backtrace crashInfo) (functionNames self) 0 1 m = Some (bd, bg) \<and>
            dopt = Some bd \<and>
            pop_trailing (map StringMatch_repr bg) \<noteq> [] \<and>
            sopt = Some \<lparr>jsonobj = stackFrames_object (pop_trailing (map StringMatch_repr bg)),
                         functionNames = map StringMatch_of_string
                                           (pop_trailing (map StringMatch_repr bg))\<rparr>"
    then obtain pre m post bd bg where h:
      "[1, 2, 3] = pre @ m # post"
      "\<forall>m' \<in> set pre. priv_diff R (backtrace crashInfo) (functionNames self) 0 1 m' = None"
      "priv_diff R (backtrace crashInfo) (functionNames self) 0 1 m = Some (bd, bg)"
      "dopt = Some bd"
      "pop_trailing (map StringMatch_repr bg) \<noteq> []"
      "sopt = Some \<lparr>jsonobj = stackFrames_object (pop_trailing (map StringMatch_repr bg)),
                     functionNames = map StringMatch_of_string
                                       (pop_trailing (map StringMatch_repr bg))\<rparr>"
      by blast
    from h(1) have "(pre = [] \<and> m = 1) \<or> (pre = [1] \<and> m = 2) \<or> (pre = [1, 2] \<and> m = 3)"
      by (auto simp: Cons_eq_append_conv)
    then have m: "1 \<le> m \<and> m \<le> 3" and pre: "\<forall>m'. 1 \<le> m' \<and> m' < m \<longrightarrow> m' \<in> set pre"
      by auto
    from pre h(2) have "\<forall>m'. 1 \<le> m' \<and> m' < m \<longrightarrow>
        priv_diff R (backtrace crashInfo) (functionNames self) 0 1 m' = None"
      by blast
    with False m h(3-6) show ?thesis by blast
  qed
qed

lemma repr_of_string [simp]: "StringMatch_repr (StringMatch_of_string s) = s"
  by (simp add: lit_simps)

lemma map_literal_repr:
  "\<forall>m \<in> set ms. literal m \<Longrightarrow> map StringMatch_of_string (map StringMatch_repr ms) = ms"
  by (induction ms) (simp_all add: literal_repr)

text \<open>
  Claim C2, as the code has it. \<^verbatim>\<open>diff\<close> rebuilds the new symptom from the
  textual forms of the matchers of the successful pattern, so the rebuilt
  matchers are literal ones. When every matcher of the receiver is a literal
  (built from a bare string, as the signature format has the entries of
  \<^verbatim>\<open>functionNames\<close>), a symptom returned by \<^verbatim>\<open>diff\<close> matches the crash, and the
  depth returned with it is 1, 2 or 3; dropping the trailing wildcards keeps
  the match, since a pattern that matches still matches when cut at its end.
\<close>

theorem diff_sound_for_literals:
  assumes lit: "\<forall>m \<in> set (functionNames self). literal m"
    and res: "StackFramesSymptom_diff R self crashInfo = Inr (dopt, Some new)"
  shows "StackFramesSymptom_matches R new crashInfo \<and>
         (dopt = Some 1 \<or> dopt = Some 2 \<or> dopt = Some 3)"
proof -
  let ?stack = "backtrace crashInfo"
  let ?fns = "functionNames self"
  from diff_result [OF res] obtain m bd bg where h:
    "1 \<le> m" "m \<le> 3"
    "priv_diff R ?stack ?fns 0 1 m = Some (bd, bg)"
    "dopt = Some bd"
    "new = \<lparr>jsonobj = stackFrames_object (pop_trailing (map StringMatch_repr bg)),
            functionNames = map StringMatch_of_string (pop_trailing (map StringMatch_repr bg))\<rparr>"
    by auto
  from priv_diff_found [of 1 m R ?stack ?fns 0] h(1,3)
  have f: "priv_match R ?stack bg" "1 \<le> bd" "bd \<le> m" "(wildcard_edit ^^ bd) ?fns bg"
    by (simp_all add: found_def)
  from wildcard_edits_set [OF f(4)] lit have "\<forall>m \<in> set bg. literal m"
    by auto
  then have rebuilt: "map StringMatch_of_string (map StringMatch_repr bg) = bg"
    by (rule map_literal_repr)
  obtain ws where ws: "map StringMatch_repr bg = pop_trailing (map StringMatch_repr bg) @ ws"
    using pop_trailing_prefix [of "map StringMatch_repr bg"] by blast
  have "bg = map StringMatch_of_string (pop_trailing (map StringMatch_repr bg) @ ws)"
    using rebuilt ws by metis
  then have "bg = functionNames new @ map StringMatch_of_string ws"
    using h(5) by simp
  with f(1) have "priv_match R ?stack (functionNames new)"
    using priv_match_prefix by metis
  moreover from f(2,3) h(2) have "bd = 1 \<or> bd = 2 \<or> bd = 3" by arith
  ultimately show ?thesis
    using h(4) by (simp add: StackFramesSymptom_matches_def)
qed


theorem diff_sound_for_literals_witness:
  "StackFramesSymptom_matches no_regex
     \<lparr>jsonobj = stackFrames_object [''A'', ''?'', ''C''],
      functionNames = map StringMatch_of_string [''A'', ''?'', ''C'']\<rparr>
     \<lparr>rawStdout = [], rawStderr = [], backtrace = [''A'', ''B'', ''C''],
      crashAddress = None, crashInstruction = None, testcase = None\<rparr>"
proof -
  let ?self = "\<lparr>jsonobj = [], functionNames = map StringMatch_of_string [''A'', ''C'']\<rparr>"
  let ?ci = "\<lparr>rawStdout = [], rawStderr = [], backtrace = [''A'', ''B'', ''C''],
      crashAddress = None, crashInstruction = None, testcase = None\<rparr>"
  have lit: "\<forall>m \<in> set (functionNames ?self). literal m"
    by simp
  have res: "StackFramesSymptom_diff no_regex ?self ?ci =
      Inr (Some 1, Some \<lparr>jsonobj = stackFrames_object [''A'', ''?'', ''C''],
                         functionNames = map StringMatch_of_string [''A'', ''?'', ''C'']\<rparr>)"
    by code_simp
  from diff_sound_for_literals [OF lit res] show ?thesis
    by simp
qed

text \<open>
  Without that restriction the claim fails. The constructor accepts a mapping
  as an entry of \<^verbatim>\<open>functionNames\<close>; for the case-insensitive matcher \<^verbatim>\<open>abc\<close>
  followed by \<^verbatim>\<open>Z\<close> and the backtrace \<^verbatim>\<open>[ABC, Y]\<close>, \<^verbatim>\<open>diff\<close> returns depth 1 and
  a symptom with the literal matcher \<^verbatim>\<open>abc\<close>, which does not match the crash.
\<close>

theorem diff_unsound_counterexample:
  "StackFramesSymptom_init no_regex
     [(''type'', JString ''stackFrames''),
      (''functionNames'',
       JArray [JObject [(''value'', JString ''abc''),
                        (''flags'', JArray [JString ''caseInsensitive''])],
               JString ''Z''])]
   = Inr \<lparr>jsonobj = [(''type'', JString ''stackFrames''),
            (''functionNames'',
             JArray [JObject [(''value'', JString ''abc''),
                              (''flags'', JArray [JString ''caseInsensitive''])],
                     JString ''Z''])],
          functionNames = [\<lparr>pattern = ''abc'', isPCRE = False, caseInsensitive = True\<rparr>,
                           StringMatch_of_string ''Z'']\<rparr>
   \<and> StackFramesSymptom_diff no_regex
       \<lparr>jsonobj = [(''type'', JString ''stackFrames''),
            (''functionNames'',
             JArray [JObject [(''value'', JString ''abc''),
                              (''flags'', JArray [JString ''caseInsensitive''])],
                     JString ''Z''])],
        functionNames = [\<lparr>pattern = ''abc'', isPCRE = False, caseInsensitive = True\<rparr>,
                         StringMatch_of_string ''Z'']\<rparr>
       \<lparr>rawStdout = [], rawStderr = [], backtrace = [''ABC'', ''Y''],
        crashAddress = None, crashInstruction = None, testcase = None\<rparr>
     = Inr (Some 1, Some \<lparr>jsonobj = stackFrames_object [''abc''],
                          functionNames = [StringMatch_of_string ''abc'']\<rparr>)
   \<and> \<not> StackFramesSymptom_matches no_regex
       \<lparr>jsonobj = stackFrames_object [''abc''],
        functionNames = [StringMatch_of_string ''abc'']\<rparr>
       \<lparr>rawStdout = [], rawStderr = [], backtrace = [''ABC'', ''Y''],
        crashAddress = None, crashInstruction = None, testcase = None\<rparr>"
  by code_simp

text \<open>
  Claim C4. When the symptom matches, \<^verbatim>\<open>diff\<close> returns \<^verbatim>\<open>(0, None)\<close>. When it
  does not and \<open>m\<close> is the first of the depth limits 1, 2, 3 at which the
  search has a result, with depth \<open>bestDepth\<close> and pattern \<open>bestGuess\<close>: the
  names kept are the textual forms of the pattern without their longest tail
  of wildcard names; if no name is left the result is \<^verbatim>\<open>(None, None)\<close>,
  otherwise it is \<open>bestDepth\<close> with the symptom built from the kept names.
  When no depth limit has a result, the result is \<^verbatim>\<open>(None, None)\<close>.
\<close>

theorem diff_result_protocol:
  "(StackFramesSymptom_matches R self crashInfo \<longrightarrow>
      StackFramesSymptom_diff R self crashInfo = Inr (Some 0, None))
   \<and> (\<not> StackFramesSymptom_matches R self crashInfo \<and> 1 \<le> m \<and> m \<le> 3 \<and>
       (\<forall>m'. 1 \<le> m' \<and> m' < m \<longrightarrow>
          priv_diff R (backtrace crashInfo) (functionNames self) 0 1 m' = None) \<and>
       priv_diff R (backtrace crashInfo) (functionNames self) 0 1 m = Some (bestDepth, bestGuess)
       \<longrightarrow>
       (\<exists>ws. map StringMatch_repr bestGuess = pop_trailing (map StringMatch_repr bestGuess) @ ws \<and>
             set ws \<subseteq> {''?'', ''???''}) \<and>
       (pop_trailing (map StringMatch_repr bestGuess) = [] \<or>
        (last (pop_trailing (map StringMatch_repr bestGuess)) \<noteq> ''?'' \<and>
         last (pop_trailing (map StringMatch_repr bestGuess)) \<noteq> ''???'')) \<and>
       (pop_trailing (map StringMatch_repr bestGuess) = [] \<longrightarrow>
          StackFramesSymptom_diff R self crashInfo = Inr (None, None)) \<and>
       (pop_trailing (map StringMatch_repr bestGuess) \<noteq> [] \<longrightarrow>
          StackFramesSymptom_diff R self crashInfo =
            Inr (Some bestDepth,
                 Some \<lparr>jsonobj = stackFrames_object (pop_trailing (map StringMatch_repr bestGuess)),
                       functionNames = map StringMatch_of_string
                                         (pop_trailing (map StringMatch_repr bestGuess))\<rparr>)))
   \<and> (\<not> StackFramesSymptom_matches R self crashInfo \<and>
       (\<forall>m'. 1 \<le> m' \<and> m' \<le> 3 \<longrightarrow>
          priv_diff R (backtrace crashInfo) (functionNames self) 0 1 m' = None) \<longrightarrow>
       StackFramesSymptom_diff R self crashInfo = Inr (None, None))"
proof (intro conjI impI)
  assume "StackFramesSymptom_matches R self crashInfo"
  then show "StackFramesSymptom_diff R self crashInfo = Inr (Some 0, None)"
    by (simp add: StackFramesSymptom_diff_def)
next
  let ?pd = "priv_diff R (backtrace crashInfo) (functionNames self) 0 1"
  assume a: "\<not> StackFramesSymptom_matches R self crashInfo \<and>
       (\<forall>m'. 1 \<le> m' \<and> m' \<le> 3 \<longrightarrow> ?pd m' = None)"
  then have "?pd 1 = None" "?pd 2 = None" "?pd 3 = None" by simp_all
  with a show "StackFramesSymptom_diff R self crashInfo = Inr (None, None)"
    by (simp add: StackFramesSymptom_diff_def)
next
  let ?pd = "priv_diff R (backtrace crashInfo) (functionNames self) 0 1"
  let ?names = "pop_trailing (map StringMatch_repr bestGuess)"
  assume a: "\<not> StackFramesSymptom_matches R self crashInfo \<and> 1 \<le> m \<and> m \<le> 3 \<and>
       (\<forall>m'. 1 \<le> m' \<and> m' < m \<longrightarrow> ?pd m' = None) \<and> ?pd m = Some (bestDepth, bestGuess)"
  show "\<exists>ws. map StringMatch_repr bestGuess = ?names @ ws \<and> set ws \<subseteq> {''?'', ''???''}"
    by (rule pop_trailing_prefix)
  show "?names = [] \<or> (last ?names \<noteq> ''?'' \<and> last ?names \<noteq> ''???'')"
    by (rule pop_trailing_last)
  let ?dd = "diff_depths R (backtrace crashInfo) (functionNames self)"
  let ?res = "if ?names = [] then Inr (None, None)
              else Inr (Some bestDepth,
                        Some \<lparr>jsonobj = stackFrames_object ?names,
                              functionNames = map StringMatch_of_string ?names\<rparr>)"
  have hit: "?dd (m # rest) = ?res" for rest
    using a by (simp add: Let_def StackFramesSymptom_init_strings)
  from a have "m = 1 \<or> m = 2 \<or> m = 3" by arith
  then have first: "?dd [1, 2, 3] = ?res"
  proof (elim disjE)
    assume "m = 1"
    with hit [of "[2, 3]"] show ?thesis by simp
  next
    assume m: "m = 2"
    with a have "?pd 1 = None" by simp
    then have "?dd [1, 2, 3] = ?dd [2, 3]" by simp
    with hit [of "[3]"] m show ?thesis by simp
  next
    assume m: "m = 3"
    with a have "?pd 1 = None" "?pd 2 = None" by simp_all
    then have "?dd [1, 2, 3] = ?dd [3]" by simp
    with hit [of "[]"] m show ?thesis by simp
  qed
  show "StackFramesSymptom_diff R self crashInfo = Inr (None, None)" if "?names = []"
    using a first that by (simp add: StackFramesSymptom_diff_def)
  show "StackFramesSymptom_diff R self crashInfo =
      Inr (Some bestDepth,
           Some \<lparr>jsonobj = stackFrames_object ?names,
                 functionNames = map StringMatch_of_string ?names\<rparr>)" if "?names \<noteq> []"
    using a first that by (simp add: StackFramesSymptom_diff_def)
qed


theorem diff_result_protocol_witness:
  "StackFramesSymptom_diff no_regex
     \<lparr>jsonobj = [], functionNames = map StringMatch_of_string [''A'', ''Z'', ''C'']\<rparr>
     \<lparr>rawStdout = [], rawStderr = [], backtrace = [''A'', ''B'', ''C''],
      crashAddress = None, crashInstruction = None, testcase = None\<rparr>
   = Inr (Some 1, Some \<lparr>jsonobj = stackFrames_object [''A'', ''?'', ''C''],
                        functionNames = map StringMatch_of_string [''A'', ''?'', ''C'']\<rparr>)
   \<and> StackFramesSymptom_diff no_regex
     \<lparr>jsonobj = [], functionNames = map StringMatch_of_string [''X'']\<rparr>
     \<lparr>rawStdout = [], rawStderr = [], backtrace = [''A''],
      crashAddress = None, crashInstruction = None, testcase = None\<rparr>
   = Inr (None, None)"
proof -
  let ?s1 = "\<lparr>jsonobj = [], functionNames = map StringMatch_of_string [''A'', ''Z'', ''C'']\<rparr>"
  let ?c1 = "\<lparr>rawStdout = [], rawStderr = [], backtrace = [''A'', ''B'', ''C''],
      crashAddress = None, crashInstruction = None, testcase = None\<rparr>"
  let ?s2 = "\<lparr>jsonobj = [], functionNames = map StringMatch_of_string [''X'']\<rparr>"
  let ?c2 = "\<lparr>rawStdout = [], rawStderr = [], backtrace = [''A''],
      crashAddress = None, crashInstruction = None, testcase = None\<rparr>"
  have n1: "\<not> StackFramesSymptom_matches no_regex ?s1 ?c1"
    by code_simp
  have p1: "priv_diff no_regex (backtrace ?c1) (functionNames ?s1) 0 1 1 =
      Some (1, map StringMatch_of_string [''A'', ''?'', ''C''])"
    by code_simp
  have t1: "pop_trailing (map StringMatch_repr (map StringMatch_of_string [''A'', ''?'', ''C'']))
      = [''A'', ''?'', ''C'']"
    by code_simp
  have n2: "\<not> StackFramesSymptom_matches no_regex ?s2 ?c2"
    by code_simp
  have p2: "priv_diff no_regex (backtrace ?c2) (functionNames ?s2) 0 1 1 =
      Some (1, map StringMatch_of_string [''?''])"
    by code_simp
  have t2: "pop_trailing (map StringMatch_repr (map StringMatch_of_string [''?''])) = []"
    by code_simp
  have v: "\<forall>m'::nat. 1 \<le> m' \<and> m' < 1 \<longrightarrow> P m'" for P
    by simp
  from diff_result_protocol [where R = no_regex and self = ?s1 and crashInfo = ?c1 and m = 1
      and bestDepth = 1 and bestGuess = "map StringMatch_of_string [''A'', ''?'', ''C'']"]
    n1 p1 t1 v
  have r1: "StackFramesSymptom_diff no_regex ?s1 ?c1 =
      Inr (Some 1, Some \<lparr>jsonobj = stackFrames_object [''A'', ''?'', ''C''],
                        functionNames = map StringMatch_of_string [''A'', ''?'', ''C'']\<rparr>)"
    by simp
  from diff_result_protocol [where R = no_regex and self = ?s2 and crashInfo = ?c2 and m = 1
      and bestDepth = 1 and bestGuess = "map StringMatch_of_string [''?'']"]
    n2 p2 t2 v
  have r2: "StackFramesSymptom_diff no_regex ?s2 ?c2 = Inr (None, None)"
    by simp
  from r1 r2 show ?thesis by simp
qed

text \<open>
  Claim C9. A result of the bounded search is reached from the guess by
  wildcard edits only, each one inserting the matcher \<^verbatim>\<open>?\<close> or putting it in
  the place of an entry that is no wildcard; so the result consists of entries
  of the guess and of that matcher, and its multi-frame wildcards are those of
  the guess, in the same order. The same holds for the pattern behind a
  symptom returned by \<^verbatim>\<open>diff\<close>, whose names are those of that pattern up to a
  tail of wildcard names.
\<close>

theorem diff_single_wildcard_only:
  "(depth \<le> maxDepth \<and> priv_diff R stack g startIdx depth maxDepth = Some (bd, bg) \<longrightarrow>
      (wildcard_edit ^^ (Suc bd - depth)) g bg \<and>
      filter multi bg = filter multi g \<and>
      set bg \<subseteq> insert singleWildcardMatch (set g))
   \<and> StringMatch_str singleWildcardMatch = ''?''
   \<and> (StackFramesSymptom_diff R self crashInfo = Inr (Some d, Some new) \<longrightarrow>
      (\<exists>bg ws. (wildcard_edit ^^ d) (functionNames self) bg \<and>
         filter multi bg = filter multi (functionNames self) \<and>
         map StringMatch_repr bg = map StringMatch_repr (functionNames new) @ ws \<and>
         set ws \<subseteq> {''?'', ''???''}))"
proof (intro conjI impI)
  assume a: "depth \<le> maxDepth \<and> priv_diff R stack g startIdx depth maxDepth = Some (bd, bg)"
  with priv_diff_found [of depth maxDepth R stack g startIdx]
  show e: "(wildcard_edit ^^ (Suc bd - depth)) g bg"
    by (simp add: found_def)
  show "filter multi bg = filter multi g"
    using e by (rule wildcard_edits_multi)
  show "set bg \<subseteq> insert singleWildcardMatch (set g)"
    using e by (rule wildcard_edits_set)
next
  show "StringMatch_str singleWildcardMatch = ''?''"
    by (simp add: singleWildcardMatch_def lit_simps)
next
  assume res: "StackFramesSymptom_diff R self crashInfo = Inr (Some d, Some new)"
  from diff_result [OF res] obtain m bg where h:
    "1 \<le> m"
    "priv_diff R (backtrace crashInfo) (functionNames self) 0 1 m = Some (d, bg)"
    "new = \<lparr>jsonobj = stackFrames_object (pop_trailing (map StringMatch_repr bg)),
            functionNames = map StringMatch_of_string (pop_trailing (map StringMatch_repr bg))\<rparr>"
    by auto
  from priv_diff_found [of 1 m R "backtrace crashInfo" "functionNames self" 0] h(1,2)
  have e: "(wildcard_edit ^^ d) (functionNames self) bg"
    by (simp add: found_def)
  obtain ws where ws: "map StringMatch_repr bg = pop_trailing (map StringMatch_repr bg) @ ws"
    "set ws \<subseteq> {''?'', ''???''}"
    using pop_trailing_prefix [of "map StringMatch_repr bg"] by blast
  have "map StringMatch_repr (functionNames new) = pop_trailing (map StringMatch_repr bg)"
    using h(3) by (simp add: comp_def)
  with ws have "map StringMatch_repr bg = map StringMatch_repr (functionNames new) @ ws"
    by simp
  with e wildcard_edits_multi [OF e] ws(2)
  show "\<exists>bg ws. (wildcard_edit ^^ d) (functionNames self) bg \<and>
         filter multi bg = filter multi (functionNames self) \<and>
         map StringMatch_repr bg = map StringMatch_repr (functionNames new) @ ws \<and>
         set ws \<subseteq> {''?'', ''???''}"
    by blast
qed

theorem diff_single_wildcard_only_witness:
  "filter multi (map StringMatch_of_string [''?'', ''???'', ''C'']) =
   filter multi (map StringMatch_of_string [''A'', ''???'', ''C''])
   \<and> (wildcard_edit ^^ 1) (map StringMatch_of_string [''A'', ''???'', ''C''])
        (map StringMatch_of_string [''?'', ''???'', ''C''])"
proof -
  have p: "(1::nat) \<le> 1 \<and>
      priv_diff no_regex [''B'', ''x'', ''C''] (map StringMatch_of_string [''A'', ''???'', ''C''])
        0 1 1
      = Some (1, map StringMatch_of_string [''?'', ''???'', ''C''])"
    by code_simp
  from diff_single_wildcard_only [where R = no_regex and depth = 1 and maxDepth = 1
      and stack = "[''B'', ''x'', ''C'']" and startIdx = 0 and bd = 1
      and g = "map StringMatch_of_string [''A'', ''???'', ''C'']"
      and bg = "map StringMatch_of_string [''?'', ''???'', ''C'']"] p
  show ?thesis by simp
qed

section \<open>Completeness of the search\<close>

lemma aligned_refl: "aligned 0 g g"
  by (induction g) (auto intro: aligned.intros)

lemma aligned_0: "aligned k g h \<Longrightarrow> k = 0 \<Longrightarrow> h = g"
  by (induction rule: aligned.induct) auto

lemma list_insert_0 [simp]: "list_insert 0 x xs = x # xs"
  by (simp add: list_insert_def)

lemma list_insert_Suc [simp]: "list_insert (Suc i) x (y # ys) = y # list_insert i x ys"
  by (simp add: list_insert_def)

lemma aligned_insert:
  "aligned j g h \<Longrightarrow> i < length h \<Longrightarrow> aligned (Suc j) g (list_insert i singleWildcardMatch h)"
proof (induction arbitrary: i rule: aligned.induct)
  case Nil
  then show ?case by simp
next
  case (keep k g h x)
  show ?case
  proof (cases i)
    case 0
    have "aligned k (x # g) (x # h)" using keep.hyps by (rule aligned.keep)
    then show ?thesis using 0 by (auto intro: aligned.ins)
  next
    case (Suc i')
    with keep show ?thesis by (auto intro: aligned.keep)
  qed
next
  case (ins k g h)
  show ?case
  proof (cases i)
    case 0
    have "aligned (Suc k) g (singleWildcardMatch # h)" using ins.hyps by (auto intro: aligned.ins)
    then show ?thesis using 0 ins.hyps by (auto intro: aligned.ins)
  next
    case (Suc i')
    with ins show ?thesis by (auto intro: aligned.ins)
  qed
next
  case (rep k g h x)
  show ?case
  proof (cases i)
    case 0
    have "aligned (Suc k) (x # g) (singleWildcardMatch # h)"
      using rep.hyps by (auto intro: aligned.rep)
    then show ?thesis using 0 by (auto intro: aligned.ins)
  next
    case (Suc i')
    with rep show ?thesis by (auto intro: aligned.rep)
  qed
qed

lemma aligned_replace:
  "aligned j g h \<Longrightarrow> i < length h \<Longrightarrow> \<not> wildcard (h ! i) \<Longrightarrow>
   aligned (Suc j) g (h[i := singleWildcardMatch])"
proof (induction arbitrary: i rule: aligned.induct)
  case Nil
  then show ?case by simp
next
  case (keep k g h x)
  show ?case
  proof (cases i)
    case 0
    with keep show ?thesis by (auto intro: aligned.rep)
  next
    case (Suc i')
    with keep show ?thesis by (auto intro: aligned.keep)
  qed
next
  case (ins k g h)
  show ?case
  proof (cases i)
    case 0
    with ins.prems show ?thesis by simp
  next
    case (Suc i')
    with ins show ?thesis by (auto intro: aligned.ins)
  qed
next
  case (rep k g h x)
  show ?case
  proof (cases i)
    case 0
    with rep.prems show ?thesis by simp
  next
    case (Suc i')
    with rep show ?thesis by (auto intro: aligned.rep)
  qed
qed

lemma list_insert_append:
  "list_insert i x (h @ ws) =
     (if i < length h then list_insert i x h @ ws else h @ list_insert (i - length h) x ws)"
  by (simp add: list_insert_def)

lemma wildcard_edit_aligned:
  assumes "wildcard_edit g1 g'" and "g1 = h @ ws" and "aligned j g h"
  shows "\<exists>j' h' ws'. j' \<le> Suc j \<and> aligned j' g h' \<and> g' = h' @ ws'"
  using assms
proof (induction rule: wildcard_edit.induct)
  case (insertion i g1)
  show ?case
  proof (cases "i < length h")
    case True
    then have "aligned (Suc j) g (list_insert i singleWildcardMatch h)"
      using insertion.prems(2) by (intro aligned_insert)
    moreover have "list_insert i singleWildcardMatch g1 = list_insert i singleWildcardMatch h @ ws"
      using True insertion.prems(1) by (simp add: list_insert_append)
    ultimately show ?thesis by blast
  next
    case False
    then have "list_insert i singleWildcardMatch g1 =
        h @ list_insert (i - length h) singleWildcardMatch ws"
      using insertion.prems(1) by (simp add: list_insert_append)
    with insertion.prems(2) show ?thesis
      by (metis le_Suc_eq order_refl)
  qed
next
  case (replacement i g1)
  show ?case
  proof (cases "i < length h")
    case True
    then have "\<not> wildcard (h ! i)"
      using replacement.hyps(2) replacement.prems(1) by (simp add: nth_append)
    then have "aligned (Suc j) g (h[i := singleWildcardMatch])"
      using True replacement.prems(2) by (intro aligned_replace)
    moreover have "g1[i := singleWildcardMatch] = h[i := singleWildcardMatch] @ ws"
      using True replacement.prems(1) by (simp add: list_update_append)
    ultimately show ?thesis by blast
  next
    case False
    then have "g1[i := singleWildcardMatch] = h @ ws[i - length h := singleWildcardMatch]"
      using replacement.prems(1) by (simp add: list_update_append)
    with replacement.prems(2) show ?thesis
      by (metis le_Suc_eq order_refl)
  qed
qed

lemma wildcard_edits_aligned:
  "(wildcard_edit ^^ k) g g' \<Longrightarrow> \<exists>j h ws. j \<le> k \<and> aligned j g h \<and> g' = h @ ws"
proof (induction k arbitrary: g')
  case 0
  then have "g' = g @ []" by simp
  with aligned_refl [of g] show ?case by blast
next
  case (Suc k)
  then obtain g1 where g1: "(wildcard_edit ^^ k) g g1" "wildcard_edit g1 g'" by auto
  from Suc.IH [OF g1(1)] obtain j h ws where h: "j \<le> k" "aligned j g h" "g1 = h @ ws"
    by blast
  from wildcard_edit_aligned [OF g1(2) h(3) h(2)] obtain j' h' ws'
    where "j' \<le> Suc j" "aligned j' g h'" "g' = h' @ ws'"
    by blast
  with h(1) show ?case by (metis Suc_le_mono le_trans)
qed

lemma diff_loop_keeps_best:
  "best \<noteq> None \<Longrightarrow> diff_loop R stack depth maxDepth (length g) idx g best \<noteq> None"
proof (induction depth idx g best rule: diff_loop_induct [where maxDepth = maxDepth])
  case (step depth idx g best)
  show ?case
  proof (cases "idx < length g")
    case False
    then show ?thesis using step.prems by (simp add: diff_loop_done)
  next
    case True
    have "diff_loop R stack depth maxDepth (length g) (Suc idx) g b \<noteq> None" if "b \<noteq> None" for b
      using True that by (rule step.IH(3))
    then show ?thesis
      using True step.prems by (simp add: diff_loop_step Let_def del: not_None_eq)
  qed
qed

text \<open>
  One iteration of the loop: a result of the remaining iterations, for
  whatever best result they start with, is a result of the loop.
\<close>

lemma diff_loop_later:
  assumes "idx < length g"
    and "\<And>b. diff_loop R stack depth maxDepth (length g) (Suc idx) g b \<noteq> None"
  shows "diff_loop R stack depth maxDepth (length g) idx g best \<noteq> None"
  using assms by (simp add: diff_loop_step Let_def del: not_None_eq)

lemma nth_pre [simp]: "(pre @ x # g) ! length pre = x"
  by (simp add: nth_append)

lemma list_insert_pre [simp]: "list_insert (length pre) x (pre @ g) = pre @ x # g"
  by (simp add: list_insert_def)

lemma diff_loop_complete:
  assumes "aligned k suf suf'" and "1 \<le> k" and "depth + k \<le> Suc maxDepth"
    and "priv_match R stack (pre @ suf')"
  shows "diff_loop R stack depth maxDepth (length (pre @ suf)) (length pre) (pre @ suf) best
           \<noteq> None"
  using assms
proof (induction arbitrary: pre depth best rule: aligned.induct)
  case Nil
  then show ?case by simp
next
  case (keep k g h x)
  have "diff_loop R stack depth maxDepth (length ((pre @ [x]) @ g)) (length (pre @ [x]))
          ((pre @ [x]) @ g) b \<noteq> None" for b
    using keep.prems by (intro keep.IH) simp_all
  then have "diff_loop R stack depth maxDepth (length (pre @ x # g)) (Suc (length pre))
          (pre @ x # g) b \<noteq> None" for b
    by simp
  then show ?case
    by (rule diff_loop_later [rotated]) simp
next
  case (ins k g h)
  let ?w = singleWildcardMatch
  let ?idx = "length pre"
  let ?g = "pre @ g"
  let ?g1 = "pre @ ?w # g"
  have idx: "?idx < length ?g" using ins.hyps(2) by (cases g) simp_all
  show ?case
  proof (cases "priv_match R stack ?g1")
    case True
    then show ?thesis
      by (simp add: diff_loop_step [OF idx] del: length_append not_None_eq)
  next
    case m1: False
    have k: "1 \<le> k"
    proof (rule ccontr)
      assume "\<not> 1 \<le> k"
      then have "h = g" using aligned_0 [OF ins.hyps(1)] by simp
      with ins.prems(3) m1 show False by simp
    qed
    with ins.prems(2) have d: "depth < maxDepth" by simp
    have deeper: "diff_loop R stack (Suc depth) maxDepth (length ((pre @ [?w]) @ g))
        (length (pre @ [?w])) ((pre @ [?w]) @ g) b \<noteq> None" for b
      using k ins.prems by (intro ins.IH) simp_all
    then have "diff_loop R stack (Suc depth) maxDepth (length ?g1) (Suc ?idx) ?g1 b \<noteq> None" for b
      by simp
    then have "diff_loop R stack (Suc depth) maxDepth (length ?g1) ?idx ?g1 None \<noteq> None"
      by (rule diff_loop_later [rotated]) simp
    then have r: "priv_diff R stack ?g1 ?idx (depth + 1) maxDepth \<noteq> None"
      by (simp add: priv_diff_loop)
    have "diff_loop R stack depth maxDepth (length ?g) (Suc ?idx) ?g b \<noteq> None"
      if "b \<noteq> None" for b
      using that by (rule diff_loop_keeps_best)
    then show ?thesis
      using idx m1 d r
      by (simp add: diff_loop_step [OF idx] Let_def del: length_append not_None_eq)
  qed
next
  case (rep k g h x)
  let ?w = singleWildcardMatch
  let ?idx = "length pre"
  let ?g = "pre @ x # g"
  let ?g3 = "pre @ ?w # g"
  have idx: "?idx < length ?g" by simp
  have g3: "?g[?idx := ?w] = ?g3" by (simp add: list_update_append)
  have keeps: "diff_loop R stack depth maxDepth (length ?g) (Suc ?idx) ?g b \<noteq> None"
    if "b \<noteq> None" for b
    using that by (rule diff_loop_keeps_best)
  show ?case
  proof (cases "priv_match R stack ?g3")
    case True
    then show ?thesis
      using idx rep.hyps(2) g3
      by (simp add: diff_loop_step [OF idx] Let_def del: length_append not_None_eq)
  next
    case m3: False
    have k: "1 \<le> k"
    proof (rule ccontr)
      assume "\<not> 1 \<le> k"
      then have "h = g" using aligned_0 [OF rep.hyps(1)] by simp
      with rep.prems(3) m3 show False by simp
    qed
    with rep.prems(2) have d: "depth < maxDepth" by simp
    have deeper: "diff_loop R stack (Suc depth) maxDepth (length ((pre @ [?w]) @ g))
        (length (pre @ [?w])) ((pre @ [?w]) @ g) b \<noteq> None" for b
      using k rep.prems by (intro rep.IH) simp_all
    then have "diff_loop R stack (Suc depth) maxDepth (length ?g3) (Suc ?idx) ?g3 b \<noteq> None" for b
      by simp
    then have "diff_loop R stack (Suc depth) maxDepth (length ?g3) ?idx ?g3 None \<noteq> None"
      by (rule diff_loop_later [rotated]) simp
    then have r: "priv_diff R stack ?g3 ?idx (depth + 1) maxDepth \<noteq> None"
      by (simp add: priv_diff_loop)
    show ?thesis
      using idx rep.hyps(2) g3 m3 d r keeps
      by (simp add: diff_loop_step [OF idx] Let_def del: length_append not_None_eq)
  qed
qed

lemma priv_diff_complete:
  assumes "\<not> priv_match R stack g" and "(wildcard_edit ^^ k) g g'" and "k \<le> m"
    and "priv_match R stack g'"
  shows "priv_diff R stack g 0 1 m \<noteq> None"
proof -
  from wildcard_edits_aligned [OF assms(2)] obtain j h ws
    where h: "j \<le> k" "aligned j g h" "g' = h @ ws"
    by blast
  from assms(4) h(3) have mh: "priv_match R stack h"
    using priv_match_prefix by blast
  have j: "1 \<le> j"
  proof (rule ccontr)
    assume "\<not> 1 \<le> j"
    then have "h = g" using aligned_0 [OF h(2)] by simp
    with mh assms(1) show False by simp
  qed
  from diff_loop_complete [OF h(2) j, of 1 m R stack "[]" None] h(1) assms(3) mh
  show ?thesis by (simp add: priv_diff_loop)
qed

text \<open>
  Claim C3. When \<^verbatim>\<open>diff\<close> returns the depth \<open>d\<close>, no pattern reached from the
  matchers of the receiver by fewer than \<open>d\<close> wildcard edits (insertions of \<^verbatim>\<open>?\<close>
  at any position, replacements of entries that are no wildcards by \<^verbatim>\<open>?\<close>)
  matches the backtrace. The search at a depth limit finds a result whenever
  some pattern within that many edits matches (an insertion at the very end,
  which the search never tries, cannot turn a mismatch into a match), and
  \<^verbatim>\<open>diff\<close> tries the limits in increasing order.
\<close>

theorem diff_depth_minimal:
  assumes "StackFramesSymptom_diff R self crashInfo = Inr (Some d, sopt)"
    and "(wildcard_edit ^^ k) (functionNames self) g'"
    and "k < d"
  shows "\<not> priv_match R (backtrace crashInfo) g'"
proof
  let ?stack = "backtrace crashInfo"
  let ?fns = "functionNames self"
  assume mg: "priv_match R ?stack g'"
  from diff_result [OF assms(1)] assms(3) obtain m bg where h:
    "\<not> StackFramesSymptom_matches R self crashInfo" "1 \<le> m"
    "\<forall>m'. 1 \<le> m' \<and> m' < m \<longrightarrow> priv_diff R ?stack ?fns 0 1 m' = None"
    "priv_diff R ?stack ?fns 0 1 m = Some (d, bg)"
    by auto
  from priv_diff_found [of 1 m R ?stack ?fns 0] h(2,4) have dm: "d \<le> m"
    by (simp add: found_def)
  from h(1) have nm: "\<not> priv_match R ?stack ?fns"
    by (simp add: StackFramesSymptom_matches_def)
  have "k \<noteq> 0"
  proof
    assume "k = 0"
    with assms(2) have "g' = ?fns" by simp
    with mg nm show False by simp
  qed
  with assms(3) dm have "1 \<le> m - 1" "m - 1 < m" "k \<le> m - 1" by simp_all
  with h(3) have "priv_diff R ?stack ?fns 0 1 (m - 1) = None" by blast
  moreover have "priv_diff R ?stack ?fns 0 1 (m - 1) \<noteq> None"
    using nm assms(2) \<open>k \<le> m - 1\<close> mg by (rule priv_diff_complete)
  ultimately show False by simp
qed

theorem diff_depth_minimal_witness:
  "\<not> priv_match no_regex [''x'', ''y'', ''z'', ''D'']
       (map StringMatch_of_string [''?'', ''B'', ''C'', ''D''])"
proof -
  let ?self = "\<lparr>jsonobj = [], functionNames = map StringMatch_of_string [''A'', ''B'', ''C'', ''D'']\<rparr>"
  let ?ci = "\<lparr>rawStdout = [], rawStderr = [], backtrace = [''x'', ''y'', ''z'', ''D''],
      crashAddress = None, crashInstruction = None, testcase = None\<rparr>"
  have res: "StackFramesSymptom_diff no_regex ?self ?ci =
      Inr (Some 3, Some \<lparr>jsonobj = stackFrames_object [''?'', ''?'', ''?'', ''D''],
                         functionNames = map StringMatch_of_string [''?'', ''?'', ''?'', ''D'']\<rparr>)"
    by code_simp
  have "wildcard_edit (functionNames ?self) ((functionNames ?self)[0 := singleWildcardMatch])"
    by (rule wildcard_edit.replacement) (simp_all add: wildcard_def lit_simps)
  then have e: "(wildcard_edit ^^ 1) (functionNames ?self)
      (map StringMatch_of_string [''?'', ''B'', ''C'', ''D''])"
    by (auto simp: singleWildcardMatch_def)
  have "(1::nat) < 3" by simp
  from diff_depth_minimal [OF res e this] show ?thesis by simp
qed

section \<open>The search leaves existing lists alone\<close>

lemma contents_None [simp]: "contents h None = None"
  by (simp add: contents_def)

lemma contents_Some [simp]: "contents h (Some (d, x)) = Some (d, cells h x)"
  by (simp add: contents_def)

lemma contents_update_best:
  "contents h (update_best_ref best new) = update_best (contents h best) (contents h new)"
  by (auto simp: update_best_ref_def update_best_def contents_def split: option.splits)

lemma contents_cong:
  "(\<And>d x. r = Some (d, x) \<Longrightarrow> cells h' x = cells h x) \<Longrightarrow> contents h' r = contents h r"
  by (cases r) (auto simp: contents_def)

lemma update_best_ref_cases:
  "update_best_ref best new = best \<or> update_best_ref best new = new"
  by (auto simp: update_best_ref_def split: option.splits)

lemma diff_ok_from_loop:
  assumes "\<And>a best h. a < fresh h \<Longrightarrow>
             (\<forall>d x. best = Some (d, x) \<longrightarrow> x < fresh h \<and> x \<noteq> a) \<Longrightarrow>
             loop_ok R stack depth maxDepth idx a best h
               (ref_loop R stack depth maxDepth (length (cells h a)) idx a best h)"
  shows "diff_ok R stack sg idx depth maxDepth h (ref_diff R stack sg idx depth maxDepth h)"
proof -
  let ?a = "fresh h"
  let ?h0 = "h\<lparr>cells := (cells h)(fresh h := cells h sg), fresh := Suc (fresh h)\<rparr>"
  obtain r h' where res: "ref_loop R stack depth maxDepth (length (cells ?h0 ?a)) idx ?a None ?h0
      = (r, h')"
    by (cases "ref_loop R stack depth maxDepth (length (cells ?h0 ?a)) idx ?a None ?h0")
  have "loop_ok R stack depth maxDepth idx ?a None ?h0
      (ref_loop R stack depth maxDepth (length (cells ?h0 ?a)) idx ?a None ?h0)"
    by (rule assms) simp_all
  with res have ok:
    "fresh ?h0 \<le> fresh h'"
    "\<forall>b < fresh ?h0. b \<noteq> ?a \<longrightarrow> cells h' b = cells ?h0 b"
    "contents h' r =
       diff_loop R stack depth maxDepth (length (cells ?h0 ?a)) idx (cells ?h0 ?a) None"
    "\<forall>d x. r = Some (d, x) \<longrightarrow> x < fresh h' \<and> (x = ?a \<or> fresh ?h0 \<le> x)"
    "(\<forall>d. r \<noteq> Some (d, ?a)) \<longrightarrow> cells h' ?a = cells ?h0 ?a"
    by (simp_all add: loop_ok_def)
  have eq: "ref_diff R stack sg idx depth maxDepth h = (r, h')"
    using res by (simp add: ref_diff.simps new_list_def)
  have "fresh h < fresh h'" using ok(1) by simp
  moreover have "\<forall>b < fresh h. cells h' b = cells h b" using ok(2) by simp
  moreover have "contents h' r = priv_diff R stack (cells h sg) idx depth maxDepth"
    using ok(3) by (simp add: priv_diff_loop)
  moreover have "\<forall>d x. r = Some (d, x) \<longrightarrow> fresh h \<le> x \<and> x < fresh h'"
    using ok(4) by auto
  moreover have "(\<forall>d. r \<noteq> Some (d, fresh h)) \<longrightarrow> cells h' (fresh h) = cells h sg"
    using ok(5) by simp
  ultimately show ?thesis
    by (simp add: diff_ok_def eq)
qed


lemma deeper_step:
  assumes best: "\<forall>d x. best = Some (d, x) \<longrightarrow> x < fresh hA \<and> x \<noteq> a"
    and a: "a < fresh hA"
    and deeper: "depth < maxDepth \<Longrightarrow>
        diff_ok R stack a idx (Suc depth) maxDepth hA
          (ref_diff R stack a idx (Suc depth) maxDepth hA)"
    and res: "(if depth < maxDepth
               then (case ref_diff R stack a idx (depth + 1) maxDepth hA of
                       (new, h') \<Rightarrow> (update_best_ref best new, h'))
               else (best, hA)) = (bestN, hB)"
  shows "fresh hA \<le> fresh hB \<and> (\<forall>b < fresh hA. cells hB b = cells hA b) \<and>
      contents hB bestN =
           (if depth < maxDepth
            then update_best (contents hA best)
                   (priv_diff R stack (cells hA a) idx (depth + 1) maxDepth)
            else contents hA best) \<and>
      (\<forall>d x. bestN = Some (d, x) \<longrightarrow>
           x < fresh hB \<and> x \<noteq> a \<and> ((\<exists>d'. best = Some (d', x)) \<or> fresh hA \<le> x))"
proof (cases "depth < maxDepth")
  case False
  with res have "bestN = best" "hB = hA" by simp_all
  with False best show ?thesis by auto
next
  case True
  obtain new h' where rd: "ref_diff R stack a idx (Suc depth) maxDepth hA = (new, h')"
    by (cases "ref_diff R stack a idx (Suc depth) maxDepth hA")
  with res True have eq: "bestN = update_best_ref best new" "hB = h'" by simp_all
  from deeper [OF True] rd have ok:
    "fresh hA < fresh h'"
    "\<forall>b < fresh hA. cells h' b = cells hA b"
    "contents h' new = priv_diff R stack (cells hA a) idx (Suc depth) maxDepth"
    "\<forall>d x. new = Some (d, x) \<longrightarrow> fresh hA \<le> x \<and> x < fresh h'"
    by (simp_all add: diff_ok_def)
  have cb: "contents h' best = contents hA best"
    using best ok(2) by (intro contents_cong) auto
  have c: "contents hB bestN =
      update_best (contents hA best) (priv_diff R stack (cells hA a) idx (depth + 1) maxDepth)"
    using eq cb ok(3) by (simp add: contents_update_best)
  have addr: "\<forall>d x. bestN = Some (d, x) \<longrightarrow>
         x < fresh hB \<and> x \<noteq> a \<and> ((\<exists>d'. best = Some (d', x)) \<or> fresh hA \<le> x)"
  proof (intro allI impI)
    fix d x
    assume b: "bestN = Some (d, x)"
    from update_best_ref_cases [of best new] eq(1) b
    have "best = Some (d, x) \<or> new = Some (d, x)" by auto
    then show "x < fresh hB \<and> x \<noteq> a \<and> ((\<exists>d'. best = Some (d', x)) \<or> fresh hA \<le> x)"
    proof
      assume "best = Some (d, x)"
      with best ok(1) eq(2) show ?thesis by auto
    next
      assume "new = Some (d, x)"
      with ok(4) a eq(2) show ?thesis by auto
    qed
  qed
  from True ok(1,2) eq(2) c addr show ?thesis by simp
qed


lemma store_simps [simp]:
  "fresh (store_insert a idx x h) = fresh h"
  "fresh (store_pop a idx h) = fresh h"
  "fresh (store_set a idx x h) = fresh h"
  "cells (store_insert a idx x h) b = (if b = a then list_insert idx x (cells h a) else cells h b)"
  "cells (store_pop a idx h) b = (if b = a then list_pop idx (cells h a) else cells h b)"
  "cells (store_set a idx x h) b = (if b = a then (cells h a)[idx := x] else cells h b)"
  by (simp_all add: store_insert_def store_pop_def store_set_def)

lemma ref_loop_ok:
  assumes "a < fresh h" and "\<forall>d x. best = Some (d, x) \<longrightarrow> x < fresh h \<and> x \<noteq> a"
  shows "loop_ok R stack depth maxDepth idx a best h
           (ref_loop R stack depth maxDepth (length (cells h a)) idx a best h)"
  using assms
proof (induction "maxDepth - depth" arbitrary: depth idx a best h rule: less_induct)
  case (less depth idx a best h)
  note outer = less.hyps
  have deeper: "diff_ok R stack a' i (Suc depth) maxDepth h'
      (ref_diff R stack a' i (Suc depth) maxDepth h')" if "depth < maxDepth" for a' i h'
  proof (rule diff_ok_from_loop)
    fix a0 and best0 :: guess_ref and h0 :: store
    assume "a0 < fresh h0" "\<forall>d x. best0 = Some (d, x) \<longrightarrow> x < fresh h0 \<and> x \<noteq> a0"
    moreover have "maxDepth - Suc depth < maxDepth - depth" using that by simp
    ultimately show "loop_ok R stack (Suc depth) maxDepth i a0 best0 h0
        (ref_loop R stack (Suc depth) maxDepth (length (cells h0 a0)) i a0 best0 h0)"
      by (intro outer)
  qed
  from less.prems show ?case
  proof (induction "length (cells h a) - idx" arbitrary: idx best h rule: less_induct)
    case (less idx h best)
    note a = less.prems(1) and best = less.prems(2)
    let ?n = "length (cells h a)"
    let ?w = singleWildcardMatch
    let ?g = "cells h a"
    let ?loop = "ref_loop R stack depth maxDepth ?n idx a best h"
    have cb: "contents h' best = contents h best"
      if "\<forall>b < fresh h. b \<noteq> a \<longrightarrow> cells h' b = cells h b" for h'
      using that best by (intro contents_cong) auto
    show ?case
    proof (cases "idx < ?n")
      case False
      then have "?loop = (best, h)"
        by (subst ref_loop.simps) simp
      moreover have "diff_loop R stack depth maxDepth ?n idx ?g (contents h best) = contents h best"
        using False by (simp add: diff_loop_done)
      ultimately show ?thesis
        using best by (auto simp: loop_ok_def)
    next
      case idx: True
      let ?h1 = "store_insert a idx ?w h"
      let ?g1 = "list_insert idx ?w ?g"
      have next_it: "loop_ok R stack depth maxDepth (Suc idx) a b hN
          (ref_loop R stack depth maxDepth ?n (Suc idx) a b hN)"
        if "cells hN a = ?g" "fresh h \<le> fresh hN"
          "\<forall>d x. b = Some (d, x) \<longrightarrow> x < fresh hN \<and> x \<noteq> a" for b hN
      proof -
        have "length (cells hN a) - Suc idx < ?n - idx" using idx that(1) by simp
        moreover have "a < fresh hN" using a that(2) by simp
        ultimately have "loop_ok R stack depth maxDepth (Suc idx) a b hN
            (ref_loop R stack depth maxDepth (length (cells hN a)) (Suc idx) a b hN)"
          using that(3) by (intro less.hyps)
        then show ?thesis using that(1) by simp
      qed
      show ?thesis
      proof (cases "priv_match R stack ?g1")
        case True
        then have "?loop = (Some (depth, a), ?h1)"
          using idx by (subst ref_loop.simps) (simp add: Let_def)
        moreover have "diff_loop R stack depth maxDepth ?n idx ?g (contents h best) =
            Some (depth, ?g1)"
          using True idx by (simp add: diff_loop_step)
        ultimately show ?thesis
          using a by (simp add: loop_ok_def)
      next
        case m1: False
        obtain best1 h2 where r1:
          "(if depth < maxDepth
            then (case ref_diff R stack a idx (depth + 1) maxDepth ?h1 of
                    (new, h') \<Rightarrow> (update_best_ref best new, h'))
            else (best, ?h1)) = (best1, h2)"
          by (cases "(if depth < maxDepth
            then (case ref_diff R stack a idx (depth + 1) maxDepth ?h1 of
                    (new, h') \<Rightarrow> (update_best_ref best new, h'))
            else (best, ?h1))")
        have "fresh ?h1 \<le> fresh h2 \<and> (\<forall>b < fresh ?h1. cells h2 b = cells ?h1 b) \<and>
            contents h2 best1 =
              (if depth < maxDepth
               then update_best (contents ?h1 best)
                      (priv_diff R stack (cells ?h1 a) idx (depth + 1) maxDepth)
               else contents ?h1 best) \<and>
            (\<forall>d x. best1 = Some (d, x) \<longrightarrow>
               x < fresh h2 \<and> x \<noteq> a \<and> ((\<exists>d'. best = Some (d', x)) \<or> fresh ?h1 \<le> x))"
          using best a deeper r1 by (intro deeper_step) simp_all
        then have s1: "fresh h \<le> fresh h2" "\<forall>b < fresh h. cells h2 b = cells ?h1 b"
          "contents h2 best1 =
              (if depth < maxDepth
               then update_best (contents h best) (priv_diff R stack ?g1 idx (depth + 1) maxDepth)
               else contents h best)"
          "\<forall>d x. best1 = Some (d, x) \<longrightarrow>
               x < fresh h2 \<and> x \<noteq> a \<and> ((\<exists>d'. best = Some (d', x)) \<or> fresh h \<le> x)"
          using cb [of ?h1] by simp_all
        let ?h3 = "store_pop a idx h2"
        have g3: "cells ?h3 a = ?g"
          using s1(2) a idx by simp
        have f3: "\<forall>b < fresh h. b \<noteq> a \<longrightarrow> cells ?h3 b = cells h b"
          using s1(2) by simp
        have c3: "contents ?h3 best1 = contents h2 best1"
          using s1(4) by (intro contents_cong) auto
        have b3: "\<forall>d x. best1 = Some (d, x) \<longrightarrow> x < fresh ?h3 \<and> x \<noteq> a"
          using s1(4) by simp
        show ?thesis
        proof (cases "wildcard (?g ! idx)")
          case w: True
          let ?res = "ref_loop R stack depth maxDepth ?n (Suc idx) a best1 ?h3"
          have eq: "?loop = ?res"
            using idx m1 r1 w g3
            by (subst ref_loop.simps) (simp add: Let_def wildcard_def)
          obtain r h' where res: "?res = (r, h')" by (cases ?res)
          from next_it [of ?h3 best1] g3 s1(1) b3 res have ok:
            "fresh ?h3 \<le> fresh h'"
            "\<forall>b < fresh ?h3. b \<noteq> a \<longrightarrow> cells h' b = cells ?h3 b"
            "contents h' r = diff_loop R stack depth maxDepth ?n (Suc idx) ?g (contents ?h3 best1)"
            "\<forall>d x. r = Some (d, x) \<longrightarrow>
               x < fresh h' \<and> (x = a \<or> (\<exists>d'. best1 = Some (d', x)) \<or> fresh ?h3 \<le> x)"
            "(\<forall>d. r \<noteq> Some (d, a)) \<longrightarrow> cells h' a = cells ?h3 a"
            by (simp_all add: loop_ok_def)
          have pure: "diff_loop R stack depth maxDepth ?n idx ?g (contents h best) =
              diff_loop R stack depth maxDepth ?n (Suc idx) ?g (contents ?h3 best1)"
            using idx m1 w c3 s1(3) by (simp add: diff_loop_step Let_def)
          have t: "fresh h \<le> fresh h'" using s1(1) ok(1) by simp
          have fr: "\<forall>b < fresh h. b \<noteq> a \<longrightarrow> cells h' b = cells h b"
            using ok(2) f3 s1(1) by auto
          have ad: "\<forall>d x. r = Some (d, x) \<longrightarrow>
               x < fresh h' \<and> (x = a \<or> (\<exists>d'. best = Some (d', x)) \<or> fresh h \<le> x)"
          proof (intro allI impI)
            fix d x
            assume "r = Some (d, x)"
            with ok(4) have x: "x < fresh h'"
              "x = a \<or> (\<exists>d'. best1 = Some (d', x)) \<or> fresh h2 \<le> x"
              by auto
            from x(2) have "x = a \<or> (\<exists>d'. best = Some (d', x)) \<or> fresh h \<le> x"
            proof (elim disjE exE)
              assume "x = a"
              then show ?thesis by simp
            next
              fix d'
              assume "best1 = Some (d', x)"
              with s1(4) show ?thesis by blast
            next
              assume "fresh h2 \<le> x"
              with s1(1) have "fresh h \<le> x" by (rule le_trans)
              then show ?thesis by simp
            qed
            with x(1) show "x < fresh h' \<and> (x = a \<or> (\<exists>d'. best = Some (d', x)) \<or> fresh h \<le> x)"
              by simp
          qed
          have la: "(\<forall>d. r \<noteq> Some (d, a)) \<longrightarrow> cells h' a = ?g"
            using ok(5) g3 by simp
          show ?thesis
            unfolding eq res loop_ok_def using t fr ok(3) pure ad la by simp
        next
          case w: False
          let ?h4 = "store_set a idx ?w ?h3"
          let ?g4 = "?g[idx := ?w]"
          have g4: "cells ?h4 a = ?g4" using g3 by simp
          show ?thesis
          proof (cases "priv_match R stack ?g4")
            case True
            have "?loop = (Some (depth, a), ?h4)"
              using idx m1 r1 w g3 True
              by (subst ref_loop.simps) (simp add: Let_def wildcard_def)
            moreover have "diff_loop R stack depth maxDepth ?n idx ?g (contents h best) =
                Some (depth, ?g4)"
              using True idx m1 w by (simp add: diff_loop_step Let_def)
            ultimately show ?thesis
              using a s1(1) f3 g4 by (simp add: loop_ok_def)
          next
            case m4: False
            obtain best2 h5 where r2:
              "(if depth < maxDepth
                then (case ref_diff R stack a idx (depth + 1) maxDepth ?h4 of
                        (new, h') \<Rightarrow> (update_best_ref best1 new, h'))
                else (best1, ?h4)) = (best2, h5)"
              by (cases "(if depth < maxDepth
                then (case ref_diff R stack a idx (depth + 1) maxDepth ?h4 of
                        (new, h') \<Rightarrow> (update_best_ref best1 new, h'))
                else (best1, ?h4))")
            have a4: "a < fresh ?h4" using a s1(1) by simp
            have b4: "\<forall>d x. best1 = Some (d, x) \<longrightarrow> x < fresh ?h4 \<and> x \<noteq> a"
              using s1(4) by simp
            have "fresh ?h4 \<le> fresh h5 \<and> (\<forall>b < fresh ?h4. cells h5 b = cells ?h4 b) \<and>
                contents h5 best2 =
                  (if depth < maxDepth
                   then update_best (contents ?h4 best1)
                          (priv_diff R stack (cells ?h4 a) idx (depth + 1) maxDepth)
                   else contents ?h4 best1) \<and>
                (\<forall>d x. best2 = Some (d, x) \<longrightarrow>
                   x < fresh h5 \<and> x \<noteq> a \<and> ((\<exists>d'. best1 = Some (d', x)) \<or> fresh ?h4 \<le> x))"
              using b4 a4 deeper r2 by (intro deeper_step) simp_all
            moreover have "contents ?h4 best1 = contents h2 best1"
              using s1(4) by (intro contents_cong) auto
            ultimately have s2: "fresh h2 \<le> fresh h5" "\<forall>b < fresh h2. cells h5 b = cells ?h4 b"
              "contents h5 best2 =
                  (if depth < maxDepth
                   then update_best (contents h2 best1)
                          (priv_diff R stack ?g4 idx (depth + 1) maxDepth)
                   else contents h2 best1)"
              "\<forall>d x. best2 = Some (d, x) \<longrightarrow>
                   x < fresh h5 \<and> x \<noteq> a \<and> ((\<exists>d'. best1 = Some (d', x)) \<or> fresh h2 \<le> x)"
              using g4 by simp_all
            let ?h6 = "store_set a idx (?g ! idx) h5"
            have a2: "a < fresh h2" using a s1(1) by simp
            have g6: "cells ?h6 a = ?g"
              using s2(2) a2 g4 by simp
            have f6: "\<forall>b < fresh h. b \<noteq> a \<longrightarrow> cells ?h6 b = cells h b"
              using s2(2) f3 s1(1) by auto
            have c6: "contents ?h6 best2 = contents h5 best2"
              using s2(4) by (intro contents_cong) auto
            have b6: "\<forall>d x. best2 = Some (d, x) \<longrightarrow> x < fresh ?h6 \<and> x \<noteq> a"
              using s2(4) by simp
            have t6: "fresh h \<le> fresh ?h6" using s1(1) s2(1) by simp
            let ?res = "ref_loop R stack depth maxDepth ?n (Suc idx) a best2 ?h6"
            have eq: "?loop = ?res"
              using idx m1 r1 w g3 m4 r2
              by (subst ref_loop.simps) (simp add: Let_def wildcard_def)
            obtain r h' where res: "?res = (r, h')" by (cases ?res)
            from next_it [of ?h6 best2] g6 t6 b6 res have ok:
              "fresh ?h6 \<le> fresh h'"
              "\<forall>b < fresh ?h6. b \<noteq> a \<longrightarrow> cells h' b = cells ?h6 b"
              "contents h' r =
                 diff_loop R stack depth maxDepth ?n (Suc idx) ?g (contents ?h6 best2)"
              "\<forall>d x. r = Some (d, x) \<longrightarrow>
                 x < fresh h' \<and> (x = a \<or> (\<exists>d'. best2 = Some (d', x)) \<or> fresh ?h6 \<le> x)"
              "(\<forall>d. r \<noteq> Some (d, a)) \<longrightarrow> cells h' a = cells ?h6 a"
              by (simp_all add: loop_ok_def)
            have pure: "diff_loop R stack depth maxDepth ?n idx ?g (contents h best) =
                diff_loop R stack depth maxDepth ?n (Suc idx) ?g (contents ?h6 best2)"
              using idx m1 w m4 c6 s2(3) s1(3) by (simp add: diff_loop_step Let_def)
            have t: "fresh h \<le> fresh h'" using t6 ok(1) by simp
            have fr: "\<forall>b < fresh h. b \<noteq> a \<longrightarrow> cells h' b = cells h b"
              using ok(2) f6 t6 by auto
            have ad: "\<forall>d x. r = Some (d, x) \<longrightarrow>
                 x < fresh h' \<and> (x = a \<or> (\<exists>d'. best = Some (d', x)) \<or> fresh h \<le> x)"
            proof (intro allI impI)
              fix d x
              assume "r = Some (d, x)"
              with ok(4) have x: "x < fresh h'"
                "x = a \<or> (\<exists>d'. best2 = Some (d', x)) \<or> fresh ?h6 \<le> x"
                by auto
              have le2: "fresh h \<le> fresh h2" "fresh h2 \<le> fresh h5"
                using s1(1) s2(1) by simp_all
              from x(2) have "x = a \<or> (\<exists>d'. best = Some (d', x)) \<or> fresh h \<le> x"
              proof (elim disjE exE)
                assume "x = a"
                then show ?thesis by simp
              next
                fix d'
                assume "best2 = Some (d', x)"
                with s2(4) have "(\<exists>d''. best1 = Some (d'', x)) \<or> fresh h2 \<le> x" by blast
                then show ?thesis
                proof (elim disjE exE)
                  fix d''
                  assume "best1 = Some (d'', x)"
                  with s1(4) show ?thesis by blast
                next
                  assume "fresh h2 \<le> x"
                  with le2(1) have "fresh h \<le> x" by (rule le_trans)
                  then show ?thesis by simp
                qed
              next
                assume "fresh ?h6 \<le> x"
                then have "fresh h5 \<le> x" by simp
                with le2 have "fresh h \<le> x" by linarith
                then show ?thesis by simp
              qed
              with x(1) show "x < fresh h' \<and> (x = a \<or> (\<exists>d'. best = Some (d', x)) \<or> fresh h \<le> x)"
                by simp
            qed
            have la: "(\<forall>d. r \<noteq> Some (d, a)) \<longrightarrow> cells h' a = ?g"
              using ok(5) g6 by simp
            show ?thesis
              unfolding eq res loop_ok_def using t fr ok(3) pure ad la by simp
          qed
        qed
      qed
    qed
  qed
qed


lemma ref_diff_ok:
  "diff_ok R stack sg startIdx depth maxDepth h (ref_diff R stack sg startIdx depth maxDepth h)"
  by (rule diff_ok_from_loop) (rule ref_loop_ok)

lemma ref_append_matchers_strings:
  "ref_append_matchers R (map JString names) a h =
     Inr (h\<lparr>cells := (cells h)(a := cells h a @ map StringMatch_of_string names)\<rparr>)"
proof (induction names arbitrary: h)
  case Nil
  show ?case by simp
next
  case (Cons x xs)
  show ?case
    by (simp add: StringMatch_init_def Cons.IH store_append_def cong: if_cong)
qed

lemma ref_init_strings:
  "ref_StackFramesSymptom_init R
     [(''type'', JString ''stackFrames''), (''functionNames'', JArray (map JString names))] h =
   Inr (\<lparr>jsonobj = stackFrames_object names, functionNames_ref = fresh h\<rparr>,
        h\<lparr>cells := (cells h)(fresh h := map StringMatch_of_string names), fresh := Suc (fresh h)\<rparr>)"
  by (simp add: ref_StackFramesSymptom_init_def new_list_def accessor_defs
        ref_append_matchers_strings stackFrames_object_def)

lemma frame_ok_refl [simp]: "frame_ok h h"
  by (simp add: frame_ok_def)

lemma frame_ok_trans: "frame_ok h h1 \<Longrightarrow> frame_ok h1 h2 \<Longrightarrow> frame_ok h h2"
  by (auto simp: frame_ok_def)

lemma ref_diff_depths_ok:
  assumes "fns < fresh h"
  shows "\<exists>dopt sopt h'.
           ref_diff_depths R stack fns depths h = Inr ((dopt, sopt), h') \<and>
           frame_ok h h' \<and>
           (\<forall>new. sopt = Some new \<longrightarrow>
              fresh h \<le> functionNames_ref new \<and> functionNames_ref new < fresh h') \<and>
           diff_depths R stack (cells h fns) depths = Inr (dopt, map_option (deref h') sopt)"
  using assms
proof (induction depths arbitrary: h)
  case Nil
  show ?case by simp
next
  case (Cons depth depths)
  obtain r h1 where rd: "ref_diff R stack fns 0 1 depth h = (r, h1)"
    by (cases "ref_diff R stack fns 0 1 depth h")
  from ref_diff_ok [of R stack fns 0 1 depth h] rd have ok:
    "fresh h < fresh h1"
    "\<forall>b < fresh h. cells h1 b = cells h b"
    "contents h1 r = priv_diff R stack (cells h fns) 0 1 depth"
    "\<forall>d x. r = Some (d, x) \<longrightarrow> fresh h \<le> x \<and> x < fresh h1"
    by (simp_all add: diff_ok_def)
  have fr1: "frame_ok h h1" using ok(1,2) by (simp add: frame_ok_def)
  show ?case
  proof (cases r)
    case None
    with ok(3) have pd: "priv_diff R stack (cells h fns) 0 1 depth = None" by simp
    have "fns < fresh h1" using Cons.prems ok(1) by simp
    from Cons.IH [OF this] obtain dopt sopt h' where h':
      "ref_diff_depths R stack fns depths h1 = Inr ((dopt, sopt), h')"
      "frame_ok h1 h'"
      "\<forall>new. sopt = Some new \<longrightarrow>
              fresh h1 \<le> functionNames_ref new \<and> functionNames_ref new < fresh h'"
      "diff_depths R stack (cells h1 fns) depths = Inr (dopt, map_option (deref h') sopt)"
      by blast
    have "cells h1 fns = cells h fns" using ok(2) Cons.prems by simp
    with h'(4) pd have "diff_depths R stack (cells h fns) (depth # depths) =
        Inr (dopt, map_option (deref h') sopt)"
      by simp
    moreover have "ref_diff_depths R stack fns (depth # depths) h = Inr ((dopt, sopt), h')"
      using rd None h'(1) by simp
    moreover have "frame_ok h h'" using fr1 h'(2) by (rule frame_ok_trans)
    moreover have "\<forall>new. sopt = Some new \<longrightarrow>
              fresh h \<le> functionNames_ref new \<and> functionNames_ref new < fresh h'"
      using h'(3) ok(1) by auto
    ultimately show ?thesis by blast
  next
    case (Some p)
    obtain bd x where p: "p = (bd, x)" by (cases p)
    with Some ok(3) have pd: "priv_diff R stack (cells h fns) 0 1 depth = Some (bd, cells h1 x)"
      by simp
    let ?names = "pop_trailing (map StringMatch_repr (cells h1 x))"
    show ?thesis
    proof (cases "?names = []")
      case True
      have "ref_diff_depths R stack fns (depth # depths) h = Inr ((None, None), h1)"
        using rd Some p True by simp
      moreover have "diff_depths R stack (cells h fns) (depth # depths) = Inr (None, None)"
        using pd True by simp
      ultimately show ?thesis using fr1 by simp
    next
      case False
      let ?new = "\<lparr>jsonobj = stackFrames_object ?names, functionNames_ref = fresh h1\<rparr>"
      let ?h2 = "h1\<lparr>cells := (cells h1)(fresh h1 := map StringMatch_of_string ?names),
                    fresh := Suc (fresh h1)\<rparr>"
      have "ref_diff_depths R stack fns (depth # depths) h = Inr ((Some bd, Some ?new), ?h2)"
        using rd Some p False by (simp add: ref_init_strings Let_def)
      moreover have "diff_depths R stack (cells h fns) (depth # depths) =
          Inr (Some bd, map_option (deref ?h2) (Some ?new))"
        using pd False by (simp add: StackFramesSymptom_init_strings Let_def deref_def)
      moreover have "frame_ok h ?h2"
        using fr1 by (auto simp: frame_ok_def)
      moreover have "fresh h \<le> functionNames_ref ?new \<and> functionNames_ref ?new < fresh ?h2"
        using ok(1) by simp
      ultimately show ?thesis by blast
    qed
  qed
qed

text \<open>
  Claim C10. \<^verbatim>\<open>matches\<close> only computes \<^verbatim>\<open>_match\<close>, which reads its arguments.
  \<^verbatim>\<open>diff\<close>, run on a receiver whose list of matchers is in the store, returns
  normally and leaves every list that existed before the call unchanged, the
  receiver's included; a symptom it returns refers to a list that is new; and
  what it returns is what \<^verbatim>\<open>diff\<close> on values returns for the receiver's state.
  \<^verbatim>\<open>_diff\<close> works on a new list: it leaves every existing list unchanged, the
  guess it was given included, its result refers to lists made during the
  call, and unless the working copy itself is the result, every edit of the
  working copy has been undone when it returns.
\<close>

theorem diff_leaves_store:
  "functionNames_ref self < fresh h \<longrightarrow>
     (\<exists>dopt sopt h'.
        ref_StackFramesSymptom_diff R self crashInfo h = Inr ((dopt, sopt), h') \<and>
        fresh h \<le> fresh h' \<and>
        (\<forall>b < fresh h. cells h' b = cells h b) \<and>
        deref h' self = deref h self \<and>
        (\<forall>new. sopt = Some new \<longrightarrow>
           fresh h \<le> functionNames_ref new \<and> functionNames_ref new < fresh h') \<and>
        StackFramesSymptom_diff R (deref h self) crashInfo =
          Inr (dopt, map_option (deref h') sopt))
   \<and> (signatureGuess < fresh h \<and>
      ref_diff R stack signatureGuess startIdx depth maxDepth h = (r, h1) \<longrightarrow>
        fresh h < fresh h1 \<and>
        (\<forall>b < fresh h. cells h1 b = cells h b) \<and>
        (\<forall>d x. r = Some (d, x) \<longrightarrow> fresh h \<le> x \<and> x < fresh h1) \<and>
        ((\<forall>d. r \<noteq> Some (d, fresh h)) \<longrightarrow> cells h1 (fresh h) = cells h signatureGuess) \<and>
        contents h1 r = priv_diff R stack (cells h signatureGuess) startIdx depth maxDepth)"
proof (intro conjI impI)
  assume a: "functionNames_ref self < fresh h"
  let ?fns = "functionNames_ref self"
  show "\<exists>dopt sopt h'.
        ref_StackFramesSymptom_diff R self crashInfo h = Inr ((dopt, sopt), h') \<and>
        fresh h \<le> fresh h' \<and>
        (\<forall>b < fresh h. cells h' b = cells h b) \<and>
        deref h' self = deref h self \<and>
        (\<forall>new. sopt = Some new \<longrightarrow>
           fresh h \<le> functionNames_ref new \<and> functionNames_ref new < fresh h') \<and>
        StackFramesSymptom_diff R (deref h self) crashInfo =
          Inr (dopt, map_option (deref h') sopt)"
  proof (cases "priv_match R (backtrace crashInfo) (cells h ?fns)")
    case True
    then have "ref_StackFramesSymptom_diff R self crashInfo h = Inr ((Some 0, None), h)"
      "StackFramesSymptom_diff R (deref h self) crashInfo = Inr (Some 0, map_option (deref h) None)"
      by (simp_all add: ref_StackFramesSymptom_diff_def StackFramesSymptom_diff_def
            StackFramesSymptom_matches_def deref_def)
    then show ?thesis by simp
  next
    case False
    from ref_diff_depths_ok [OF a, of R "backtrace crashInfo" "[1, 2, 3]"]
    obtain dopt sopt h' where h':
      "ref_diff_depths R (backtrace crashInfo) ?fns [1, 2, 3] h = Inr ((dopt, sopt), h')"
      "frame_ok h h'"
      "\<forall>new. sopt = Some new \<longrightarrow>
              fresh h \<le> functionNames_ref new \<and> functionNames_ref new < fresh h'"
      "diff_depths R (backtrace crashInfo) (cells h ?fns) [1, 2, 3] =
         Inr (dopt, map_option (deref h') sopt)"
      by blast
    have "ref_StackFramesSymptom_diff R self crashInfo h = Inr ((dopt, sopt), h')"
      using False h'(1) by (simp add: ref_StackFramesSymptom_diff_def)
    moreover have "StackFramesSymptom_diff R (deref h self) crashInfo =
        Inr (dopt, map_option (deref h') sopt)"
      using False h'(4)
      by (simp add: StackFramesSymptom_diff_def StackFramesSymptom_matches_def deref_def)
    moreover have "fresh h \<le> fresh h'" "\<forall>b < fresh h. cells h' b = cells h b"
      using h'(2) by (simp_all add: frame_ok_def)
    moreover from this(2) a have "deref h' self = deref h self"
      by (simp add: deref_def)
    ultimately show ?thesis using h'(3) by blast
  qed
next
  assume b: "signatureGuess < fresh h \<and>
      ref_diff R stack signatureGuess startIdx depth maxDepth h = (r, h1)"
  from ref_diff_ok [of R stack signatureGuess startIdx depth maxDepth h] b
  have ok: "fresh h < fresh h1" "\<forall>b < fresh h. cells h1 b = cells h b"
    "\<forall>d x. r = Some (d, x) \<longrightarrow> fresh h \<le> x \<and> x < fresh h1"
    "(\<forall>d. r \<noteq> Some (d, fresh h)) \<longrightarrow> cells h1 (fresh h) = cells h signatureGuess"
    "contents h1 r = priv_diff R stack (cells h signatureGuess) startIdx depth maxDepth"
    by (simp_all add: diff_ok_def)
  show "fresh h < fresh h1" by (rule ok(1))
  show "\<forall>b < fresh h. cells h1 b = cells h b" by (rule ok(2))
  show "\<forall>d x. r = Some (d, x) \<longrightarrow> fresh h \<le> x \<and> x < fresh h1" by (rule ok(3))
  show "cells h1 (fresh h) = cells h signatureGuess" if "\<forall>d. r \<noteq> Some (d, fresh h)"
    using ok(4) that by blast
  show "contents h1 r = priv_diff R stack (cells h signatureGuess) startIdx depth maxDepth"
    by (rule ok(5))
qed


theorem diff_leaves_store_witness:
  "\<exists>dopt sopt h'.
     ref_StackFramesSymptom_diff no_regex \<lparr>jsonobj = [], functionNames_ref = 0\<rparr>
       \<lparr>rawStdout = [], rawStderr = [], backtrace = [''A'', ''B'', ''C''],
        crashAddress = None, crashInstruction = None, testcase = None\<rparr> store0
       = Inr ((dopt, sopt), h') \<and>
     cells h' 0 = map StringMatch_of_string [''A'', ''C'']"
proof -
  have "functionNames_ref \<lparr>jsonobj = [], functionNames_ref = 0\<rparr> < fresh store0"
    by (simp add: store0_def)
  with diff_leaves_store [where self = "\<lparr>jsonobj = [], functionNames_ref = 0\<rparr>"
      and h = store0 and R = no_regex and crashInfo =
       "\<lparr>rawStdout = [], rawStderr = [], backtrace = [''A'', ''B'', ''C''],
        crashAddress = None, crashInstruction = None, testcase = None\<rparr>"]
  obtain dopt sopt h' where
    "ref_StackFramesSymptom_diff no_regex \<lparr>jsonobj = [], functionNames_ref = 0\<rparr>
       \<lparr>rawStdout = [], rawStderr = [], backtrace = [''A'', ''B'', ''C''],
        crashAddress = None, crashInstruction = None, testcase = None\<rparr> store0
       = Inr ((dopt, sopt), h')"
    "\<forall>b < fresh store0. cells h' b = cells store0 b"
    by blast
  moreover have "0 < fresh store0" "cells store0 0 = map StringMatch_of_string [''A'', ''C'']"
    by (simp_all add: store0_def)
  ultimately show ?thesis by auto
qed

end
